theory Spec2Isabelle
  imports Complex_Main "HOL-Library.Word"
begin

section \<open>Strings and character classes\<close>

text \<open>
  JavaScript strings are sequences of UTF-16 code units. The currency symbols of
  \<open>salaryRegex\<close> lie outside Latin-1 (the euro sign is U+20AC), so a text is a list of
  code units, each a natural number; \<open>str\<close> embeds an ASCII literal.
\<close>

type_synonym codeunit = nat
type_synonym ustring = "codeunit list"

definition str :: "string \<Rightarrow> ustring" where
  "str s = map of_char s"

text \<open>The classes \<open>\d\<close>, \<open>\w\<close> and \<open>\s\<close> of a pattern without the \<open>u\<close> flag.\<close>

definition digit :: "codeunit \<Rightarrow> bool" where
  "digit c \<longleftrightarrow> 48 \<le> c \<and> c \<le> 57"

definition word_char :: "codeunit \<Rightarrow> bool" where
  "word_char c \<longleftrightarrow> (97 \<le> c \<and> c \<le> 122) \<or> (65 \<le> c \<and> c \<le> 90) \<or> digit c \<or> c = 95"

text \<open>
  White space and line terminators: what \<open>\s\<close> matches and what
  \<open>String.prototype.trim\<close> strips.
\<close>

definition white_space :: "codeunit \<Rightarrow> bool" where
  "white_space c \<longleftrightarrow>
     (9 \<le> c \<and> c \<le> 13) \<or> c = 32 \<or> c = 160 \<or> c = 5760 \<or> (8192 \<le> c \<and> c \<le> 8202) \<or>
     c = 8232 \<or> c = 8233 \<or> c = 8239 \<or> c = 8287 \<or> c = 12288 \<or> c = 65279"

text \<open>The line terminators: what the dot of a pattern does not match.\<close>

definition line_terminator :: "codeunit \<Rightarrow> bool" where
  "line_terminator c \<longleftrightarrow> c = 10 \<or> c = 13 \<or> c = 8232 \<or> c = 8233"

text \<open>The number a run of decimal digits denotes, after the digits read so far.\<close>

fun decimal :: "nat \<Rightarrow> ustring \<Rightarrow> nat" where
  "decimal acc [] = acc"
| "decimal acc (c # cs) = decimal (10 * acc + (c - 48)) cs"

definition to_upper :: "codeunit \<Rightarrow> codeunit" where
  "to_upper c = (if 97 \<le> c \<and> c \<le> 122 then c - 32 else c)"

definition to_lower :: "codeunit \<Rightarrow> codeunit" where
  "to_lower c = (if 65 \<le> c \<and> c \<le> 90 then c + 32 else c)"

text \<open>
  Membership of a code unit in a character set. Under the \<open>i\<close> flag a code unit
  belongs to the set when some member has the same canonical (upper-case) form. A code
  unit from 128 on never canonicalises to an ASCII one, and no code unit other than
  themselves canonicalises to the pound or the euro sign, so for the sets of this
  program (ASCII ranges, \<open>\d\<close>, \<open>\w\<close>, \<open>\s\<close>, the two signs) the members with the
  canonical form of \<open>c\<close> are \<open>c\<close> and its two ASCII case variants.
\<close>

definition in_set :: "bool \<Rightarrow> (codeunit \<Rightarrow> bool) \<Rightarrow> codeunit \<Rightarrow> bool" where
  "in_set ic A c \<longleftrightarrow> A c \<or> (ic \<and> (A (to_upper c) \<or> A (to_lower c)))"

section \<open>Regular expressions\<close>

text \<open>
  The pattern constructs the program's regular expressions use. \<open>CharSet A neg\<close> is a
  character class (inverted when \<open>neg\<close>); \<open>Star\<close> and \<open>Opt\<close> are the greedy
  quantifiers \<open>*\<close> and \<open>?\<close>; \<open>Group n r\<close> is the named group \<open>(?<n>r)\<close>;
  \<open>NotBehind A\<close> is the lookbehind \<open>(?<![A])\<close> on one character and \<open>NotAhead r\<close>
  the lookahead \<open>(?!r)\<close>. Unnamed groups only bracket: the program never reads a
  capture by its number.
\<close>

datatype regex =
    Empty
  | CharSet "codeunit \<Rightarrow> bool" bool
  | Seq regex regex
  | Alt regex regex
  | Star regex
  | Opt regex
  | Group string regex
  | WordBoundary
  | NotBehind "codeunit \<Rightarrow> bool"
  | NotAhead regex

text \<open>
  A match state: the text before the current position (last character first), the text
  from the position on, and the named captures so far.
\<close>

type_synonym mstate = "ustring \<times> ustring \<times> (string \<times> ustring) list"

definition is_word_at :: "ustring \<Rightarrow> bool" where
  "is_word_at cs = (case cs of [] \<Rightarrow> False | c # _ \<Rightarrow> word_char c)"

text \<open>
  The backtracking matcher: every way of matching \<open>r\<close> at the position, in the order
  the engine tries them (left alternative first, more iterations first). An iteration
  of \<open>*\<close> or \<open>?\<close> that consumes nothing is rejected, as the engine does.
\<close>

fun matches :: "bool \<Rightarrow> regex \<Rightarrow> mstate \<Rightarrow> mstate list" where
  "matches ic Empty x = [x]"
| "matches ic (CharSet A neg) (b, [], g) = []"
| "matches ic (CharSet A neg) (b, c # cs, g) =
     (if in_set ic A c \<noteq> neg then [(c # b, cs, g)] else [])"
| "matches ic (Seq r s) x = concat (map (\<lambda>y. matches ic s y) (matches ic r x))"
| "matches ic (Alt r s) x = matches ic r x @ matches ic s x"
| "matches ic (Star r) (b, a, g) =
     concat (map (\<lambda>y. if length (fst (snd y)) < length a then matches ic (Star r) y else [])
                 (matches ic r (b, a, g))) @ [(b, a, g)]"
| "matches ic (Opt r) (b, a, g) =
     filter (\<lambda>y. length (fst (snd y)) < length a) (matches ic r (b, a, g)) @ [(b, a, g)]"
| "matches ic (Group n r) (b, a, g) =
     map (\<lambda>(b', a', g'). (b', a', g' @ [(n, rev (take (length b' - length b) b'))]))
         (matches ic r (b, a, g))"
| "matches ic WordBoundary (b, a, g) =
     (if is_word_at b \<noteq> is_word_at a then [(b, a, g)] else [])"
| "matches ic (NotBehind A) (b, a, g) =
     (case b of [] \<Rightarrow> [(b, a, g)] | c # _ \<Rightarrow> if in_set ic A c then [] else [(b, a, g)])"
| "matches ic (NotAhead r) x = (if matches ic r x = [] then [x] else [])"

text \<open>Pattern abbreviations: a literal character, a literal string, \<open>+\<close>, \<open>{m}\<close>, \<open>{m,n}\<close>.\<close>

definition chr :: "codeunit \<Rightarrow> regex" where
  "chr c = CharSet (\<lambda>x. x = c) False"

definition cls :: "(codeunit \<Rightarrow> bool) \<Rightarrow> regex" where
  "cls A = CharSet A False"

fun seqs :: "regex list \<Rightarrow> regex" where
  "seqs [] = Empty"
| "seqs (r # rs) = Seq r (seqs rs)"

definition lit :: "ustring \<Rightarrow> regex" where
  "lit s = seqs (map chr s)"

definition Plus :: "regex \<Rightarrow> regex" where
  "Plus r = Seq r (Star r)"

fun upto_times :: "nat \<Rightarrow> regex \<Rightarrow> regex" where
  "upto_times 0 r = Empty"
| "upto_times (Suc n) r = Opt (Seq r (upto_times n r))"

fun times :: "nat \<Rightarrow> regex \<Rightarrow> regex \<Rightarrow> regex" where
  "times 0 r k = k"
| "times (Suc n) r k = Seq r (times n r k)"

definition between :: "nat \<Rightarrow> nat \<Rightarrow> regex \<Rightarrow> regex" where
  "between m n r = times m r (upto_times (n - m) r)"

definition at_least :: "nat \<Rightarrow> regex \<Rightarrow> regex" where
  "at_least m r = times m r (Star r)"

text \<open>A regular expression object: its pattern and its \<open>i\<close> and \<open>g\<close> flags.\<close>

record regexp =
  pattern :: regex
  ignoreCase :: bool
  global :: bool

record rmatch =
  index :: nat
  matched :: ustring
  groups :: "(string \<times> ustring) list"
  endIndex :: nat

text \<open>
  The search of \<open>RegExp.prototype.exec\<close>: try the pattern at the position; on failure
  move one code unit to the right, up to and including the end of the text.
\<close>

fun scan :: "bool \<Rightarrow> regex \<Rightarrow> ustring \<Rightarrow> ustring \<Rightarrow> rmatch option" where
  "scan ic r b [] =
     (case matches ic r (b, [], []) of
        [] \<Rightarrow> None
      | (b', a', g) # _ \<Rightarrow>
          Some \<lparr>index = length b, matched = rev (take (length b' - length b) b'),
                groups = g, endIndex = length b'\<rparr>)"
| "scan ic r b (c # cs) =
     (case matches ic r (b, c # cs, []) of
        [] \<Rightarrow> scan ic r (c # b) cs
      | (b', a', g) # _ \<Rightarrow>
          Some \<lparr>index = length b, matched = rev (take (length b' - length b) b'),
                groups = g, endIndex = length b'\<rparr>)"


text \<open>
  \<open>R.exec(S)\<close>, given the \<open>lastIndex\<close> of \<open>R\<close>: the match (or null) and the new
  \<open>lastIndex\<close>. A global regular expression starts at its \<open>lastIndex\<close>, stores the end
  of the match there, and resets it to 0 when nothing matches; any other one starts at 0
  and leaves \<open>lastIndex\<close> alone.
\<close>

definition RegExp_exec :: "regexp \<Rightarrow> nat \<Rightarrow> ustring \<Rightarrow> rmatch option \<times> nat" where
  "RegExp_exec R lastIndex S =
     (let i = (if global R then lastIndex else 0) in
      if i > length S then (None, if global R then 0 else lastIndex)
      else (case scan (ignoreCase R) (pattern R) (rev (take i S)) (drop i S) of
              None \<Rightarrow> (None, if global R then 0 else lastIndex)
            | Some m \<Rightarrow> (Some m, if global R then endIndex m else lastIndex)))"

text \<open>
  Element 0 of \<open>S.match(R)\<close>, or null. For a global \<open>R\<close>, \<open>match\<close> sets
  \<open>lastIndex\<close> to 0, collects every match and leaves \<open>lastIndex\<close> at 0; otherwise it
  is \<open>exec\<close>, which starts at 0. Either way element 0 is the leftmost match in \<open>S\<close>
  and the \<open>lastIndex\<close> the call leaves is the one it found (0 for the global ones).
\<close>

definition String_match0 :: "ustring \<Rightarrow> regexp \<Rightarrow> ustring option" where
  "String_match0 S R = map_option matched (scan (ignoreCase R) (pattern R) [] S)"

text \<open>\<open>R.test(S)\<close> on a freshly built regular expression (\<open>lastIndex\<close> 0).\<close>

definition RegExp_test :: "regexp \<Rightarrow> ustring \<Rightarrow> bool" where
  "RegExp_test R S \<longleftrightarrow> fst (RegExp_exec R 0 S) \<noteq> None"

section \<open>The regular expressions of \<open>index.js\<close>\<close>

definition alpha :: "codeunit \<Rightarrow> bool" where
  "alpha c \<longleftrightarrow> (97 \<le> c \<and> c \<le> 122) \<or> (65 \<le> c \<and> c \<le> 90)"

definition one_of :: "string \<Rightarrow> codeunit \<Rightarrow> bool" where
  "one_of s c \<longleftrightarrow> c \<in> set (str s)"

definition https_opt :: regex where
  "https_opt = Opt (seqs [lit (str ''http''), Opt (chr (of_char CHR ''s'')), lit (str ''://'')])"

definition emailRegex :: regexp where
  "emailRegex =
     \<lparr>pattern = seqs
        [cls (\<lambda>c. alpha c \<or> one_of ''._%+-'' c),
         Star (cls (\<lambda>c. alpha c \<or> digit c \<or> one_of ''._%+-'' c)),
         chr (of_char CHR ''@''),
         Plus (cls (\<lambda>c. alpha c \<or> digit c \<or> one_of ''.-'' c)),
         chr (of_char CHR ''.''),
         at_least 2 (cls alpha)],
      ignoreCase = False, global = False\<rparr>"

definition phoneRegex :: regexp where
  "phoneRegex =
     \<lparr>pattern = seqs
        [Opt (chr (of_char CHR ''+'')),
         between 1 3 (cls digit),
         between 10 20 (cls (\<lambda>c. digit c \<or> one_of ''-() '' c))],
      ignoreCase = False, global = False\<rparr>"

definition linkedInRegex :: regexp where
  "linkedInRegex =
     \<lparr>pattern = seqs
        [Opt (Seq https_opt (Opt (lit (str ''www.'')))),
         lit (str ''linkedin.com/''),
         Opt (lit (str ''in/'')),
         Plus (cls (\<lambda>c. (65 \<le> c \<and> c \<le> 122) \<or> digit c \<or> one_of ''_-'' c))],
      ignoreCase = True, global = True\<rparr>"

definition whatsAppRegex :: regexp where
  "whatsAppRegex =
     \<lparr>pattern = seqs
        [https_opt,
         Alt (lit (str ''wa.me'')) (lit (str ''api.whatsapp.com'')),
         chr (of_char CHR ''/''),
         Plus (CharSet white_space True)],
      ignoreCase = True, global = True\<rparr>"

definition telegramUrlRegex :: regexp where
  "telegramUrlRegex =
     \<lparr>pattern = seqs
        [https_opt,
         Alt (lit (str ''t.me'')) (lit (str ''telegram.me'')),
         chr (of_char CHR ''/''),
         Plus (CharSet white_space True)],
      ignoreCase = True, global = True\<rparr>"

definition telegramHandleRegex :: regexp where
  "telegramHandleRegex =
     \<lparr>pattern = seqs
        [NotBehind (\<lambda>c. word_char c \<or> c = of_char CHR ''.''),
         chr (of_char CHR ''@''),
         Plus (cls word_char),
         NotAhead (Seq (chr (of_char CHR ''.'')) (cls word_char))],
      ignoreCase = True, global = True\<rparr>"

text \<open>The dollar, euro (U+20AC) and pound (U+00A3) signs.\<close>

definition dollar :: codeunit where "dollar = 36"
definition euro :: codeunit where "euro = 8364"
definition pound :: codeunit where "pound = 163"

definition currency_symbol :: "codeunit \<Rightarrow> bool" where
  "currency_symbol c \<longleftrightarrow> c = dollar \<or> c = euro \<or> c = pound"

definition salaryRegex :: regexp where
  "salaryRegex =
     \<lparr>pattern = seqs
        [Group ''currencySymbol'' (cls currency_symbol),
         Opt (cls white_space),
         Group ''amount'' (seqs
           [Plus (cls digit),
            Star (Seq (Opt (chr (of_char CHR '',''))) (times 3 (cls digit) Empty)),
            Opt (Seq (chr (of_char CHR ''.'')) (between 1 2 (cls digit)))]),
         between 1 3 (chr 32),
         Opt (Group ''currencySymbol2'' (cls currency_symbol)),
         Opt (cls white_space),
         Opt (cls white_space),
         Opt (Alt (lit (str ''per year''))
             (Alt (lit (str ''annually''))
             (Alt (lit (str ''per annum'')) (lit (str ''per month'')))))],
      ignoreCase = True, global = True\<rparr>"


section \<open>Regular expressions from pattern source\<close>

text \<open>
  \<open>extractLanguages\<close> does not write its regular expressions down: it builds each from
  a string with \<open>new RegExp\<close>. This section reads pattern source the way the
  constructor does without the \<open>u\<close> flag: alternatives, groups and lookaheads,
  the quantifiers, the assertions, character classes and escapes, with the leniencies
  engines keep for the web (a brace that opens no quantifier and a closing bracket or
  brace are ordinary characters; a lookahead can carry a quantifier). Reading ends in
  one of three ways: a pattern, \<open>Invalid\<close> (the constructor throws a SyntaxError), or
  \<open>Beyond\<close>, for source with a construct that is not read here: a backreference or
  another escape by digit, the escapes \<open>\c\<close>, \<open>\x\<close>, \<open>\u\<close> and \<open>\k\<close>,
  and a group opening with \<open>(?\<close> other than \<open>(?:\<close>, \<open>(?=\<close> and \<open>(?!\<close>
  (a named group, a lookbehind, whatever else an engine may read there). What the
  constructor makes of such source is left to the environment.
\<close>

datatype parsed = Parsed regex | Invalid | Beyond

text \<open>
  What a backslash and the character after it stand for, outside and inside a character
  class: an assertion, a class, one character, or an escape that is not read here.
\<close>

datatype escaped = Assertion regex | Class "codeunit \<Rightarrow> bool" | Single codeunit | Unread

definition escape :: "bool \<Rightarrow> codeunit \<Rightarrow> escaped" where
  "escape in_class d =
     (if d = 98 then (if in_class then Single 8 else Assertion WordBoundary)
      else if d = 66 then (if in_class then Single 66 else Assertion (NotAhead WordBoundary))
      else if d = 100 then Class digit
      else if d = 68 then Class (\<lambda>c. \<not> digit c)
      else if d = 115 then Class white_space
      else if d = 83 then Class (\<lambda>c. \<not> white_space c)
      else if d = 119 then Class word_char
      else if d = 87 then Class (\<lambda>c. \<not> word_char c)
      else if d = 116 then Single 9
      else if d = 110 then Single 10
      else if d = 118 then Single 11
      else if d = 102 then Single 12
      else if d = 114 then Single 13
      else if digit d \<or> d = 99 \<or> d = 120 \<or> d = 117 \<or> d = 107 then Unread
      else Single d)"

text \<open>
  A braced quantifier at the beginning of \<open>cs\<close>, the opening brace already read:
  \<open>n}\<close>, \<open>n,}\<close> or \<open>n,m}\<close>. The result is the lower bound, the upper bound
  if there is one, and the number of characters read.
\<close>

definition interval :: "ustring \<Rightarrow> (nat \<times> nat option \<times> nat) option" where
  "interval cs =
     (let ds = takeWhile digit cs
      in if ds = [] then None
         else (case dropWhile digit cs of
                 [] \<Rightarrow> None
               | x # r \<Rightarrow>
                   if x = 125 then Some (decimal 0 ds, Some (decimal 0 ds), Suc (length ds))
                   else if x = 44 then
                     (let es = takeWhile digit r
                      in case dropWhile digit r of
                           [] \<Rightarrow> None
                         | y # _ \<Rightarrow>
                             if y = 125
                             then Some (decimal 0 ds, if es = [] then None else Some (decimal 0 es),
                                        length ds + length es + 2)
                             else None)
                   else None))"

definition repeat :: "nat \<Rightarrow> nat option \<Rightarrow> regex \<Rightarrow> regex" where
  "repeat m n r = (case n of None \<Rightarrow> at_least m r | Some k \<Rightarrow> between m k r)"

text \<open>
  Character classes. An atom of a class is one character or, by an escape, a class of
  its own; a reading gives the thing read and the number of characters it took, or is
  \<open>Bad\<close> (a SyntaxError) or \<open>Unknown\<close> (an escape not read here).
\<close>

datatype class_atom = One codeunit | Many "codeunit \<Rightarrow> bool"

datatype 'a reading = Reading 'a nat | Bad | Unknown

definition class_atom :: "codeunit \<Rightarrow> ustring \<Rightarrow> class_atom reading" where
  "class_atom c cs =
     (if c = 92 then
        (case cs of
           [] \<Rightarrow> Bad
         | d # _ \<Rightarrow>
             (case escape True d of
                Class A \<Rightarrow> Reading (Many A) 1
              | Single x \<Rightarrow> Reading (One x) 1
              | _ \<Rightarrow> Unknown))
      else Reading (One c) 0)"

definition members :: "class_atom \<Rightarrow> codeunit \<Rightarrow> bool" where
  "members x c = (case x of One a \<Rightarrow> c = a | Many A \<Rightarrow> A c)"

text \<open>
  The atoms of a class up to its closing bracket, \<open>A\<close> being the set read so far and
  \<open>n\<close> the number of characters read. \<open>class_atom c cs\<close> reads the atom that
  begins with \<open>c\<close> and says how many characters of \<open>cs\<close> belong to it, so that
  \<open>cs ! k\<close> is the character after the atom. Two atoms with a hyphen between them
  are a range, which must not run backwards; where one of them is a class, the three
  are taken one by one. A hyphen before the closing bracket is a hyphen. The source
  ending inside the class is an error.
\<close>

fun class_items :: "(codeunit \<Rightarrow> bool) \<Rightarrow> nat \<Rightarrow> ustring \<Rightarrow> (codeunit \<Rightarrow> bool) reading" where
  "class_items A n [] = Bad"
| "class_items A n (c # cs) =
     (if c = 93 then Reading A (Suc n)
      else
        (case class_atom c cs of
           Bad \<Rightarrow> Bad
         | Unknown \<Rightarrow> Unknown
         | Reading x k \<Rightarrow>
             if k + 1 < length cs \<and> cs ! k = 45 \<and> cs ! (k + 1) \<noteq> 93 then
               (case class_atom (cs ! (k + 1)) (drop (k + 2) cs) of
                  Bad \<Rightarrow> Bad
                | Unknown \<Rightarrow> Unknown
                | Reading z j \<Rightarrow>
                    (case (x, z) of
                       (One a, One b) \<Rightarrow>
                         if b < a then Bad
                         else class_items (\<lambda>c. A c \<or> (a \<le> c \<and> c \<le> b))
                                (n + k + j + 3) (drop (k + j + 2) cs)
                     | _ \<Rightarrow>
                         class_items (\<lambda>c. A c \<or> members x c \<or> c = 45 \<or> members z c)
                           (n + k + j + 3) (drop (k + j + 2) cs)))
             else class_items (\<lambda>c. A c \<or> members x c) (n + k + 1) (drop k cs)))"

declare class_items.simps [simp del]

text \<open>A character class, its opening bracket already read: \<open>^\<close> first inverts it.\<close>

definition char_class :: "ustring \<Rightarrow> regex reading" where
  "char_class cs =
     (case cs of
        [] \<Rightarrow> Bad
      | c # r \<Rightarrow>
          if c = 94 then
            (case class_items (\<lambda>c. False) 1 r of
               Reading A n \<Rightarrow> Reading (CharSet A True) n | Bad \<Rightarrow> Bad | Unknown \<Rightarrow> Unknown)
          else
            (case class_items (\<lambda>c. False) 0 cs of
               Reading A n \<Rightarrow> Reading (CharSet A False) n | Bad \<Rightarrow> Bad | Unknown \<Rightarrow> Unknown))"

text \<open>
  The reader keeps, for the group it is in, the kind of the group, the alternatives
  finished so far and the terms of the current alternative (last term first), and below
  it the same for the enclosing groups. Capturing and non-capturing groups are both
  \<open>Bracket\<close>: with backreferences left out, nothing reads a capture.
\<close>

datatype group_kind = Bracket | Lookahead bool

type_synonym frame = "group_kind \<times> regex list \<times> regex list"

fun disjunction :: "regex list \<Rightarrow> regex" where
  "disjunction [] = Empty"
| "disjunction [r] = r"
| "disjunction (r # s # rs) = Alt r (disjunction (s # rs))"

fun close_frame :: "frame \<Rightarrow> regex" where
  "close_frame (k, alts, ts) =
     (let d = disjunction (alts @ [seqs (rev ts)])
      in case k of
           Bracket \<Rightarrow> d
         | Lookahead neg \<Rightarrow> if neg then NotAhead d else NotAhead (NotAhead d))"

fun push :: "regex \<Rightarrow> frame \<Rightarrow> frame" where
  "push t (k, alts, ts) = (k, alts, t # ts)"

fun quantify :: "(regex \<Rightarrow> regex) \<Rightarrow> frame \<Rightarrow> frame option" where
  "quantify q (k, alts, []) = None"
| "quantify q (k, alts, t # ts) = Some (k, alts, q t # ts)"

text \<open>
  What a quantifier would apply to: an atom (\<open>Atom\<close>), a term that has its quantifier
  already (\<open>Quantified\<close>: a question mark after it only makes the quantifier lazy),
  or nothing (\<open>Nothing\<close>: the start of an alternative, an assertion, a lazy
  quantifier), where a quantifier is the error "nothing to repeat". A lazy quantifier
  tries the same matches as the greedy one, fewest iterations first. The patterns read
  here are only asked whether they match, so it is read as the greedy one.
\<close>

datatype repeatable = Atom | Quantified | Nothing

fun parse :: "frame \<Rightarrow> frame list \<Rightarrow> repeatable \<Rightarrow> ustring \<Rightarrow> parsed" where
  "parse f fs q [] = (if fs = [] then Parsed (close_frame f) else Invalid)"
| "parse f fs q (c # cs) =
     (if c = 92 then
        (case cs of
           [] \<Rightarrow> Invalid
         | d # ds \<Rightarrow>
             (case escape False d of
                Assertion a \<Rightarrow> parse (push a f) fs Nothing ds
              | Class A \<Rightarrow> parse (push (CharSet A False) f) fs Atom ds
              | Single x \<Rightarrow> parse (push (chr x) f) fs Atom ds
              | Unread \<Rightarrow> Beyond))
      else if c = 40 then
        (case cs of
           [] \<Rightarrow> Invalid
         | d # ds \<Rightarrow>
             if d = 63 then
               (case ds of
                  [] \<Rightarrow> Invalid
                | k # ks \<Rightarrow>
                    if k = 58 then parse (Bracket, [], []) (f # fs) Nothing ks
                    else if k = 61 then parse (Lookahead False, [], []) (f # fs) Nothing ks
                    else if k = 33 then parse (Lookahead True, [], []) (f # fs) Nothing ks
                    else Beyond)
             else parse (Bracket, [], []) (f # fs) Nothing cs)
      else if c = 41 then
        (case fs of
           [] \<Rightarrow> Invalid
         | g # gs \<Rightarrow> parse (push (close_frame f) g) gs Atom cs)
      else if c = 124 then
        (case f of (k, alts, ts) \<Rightarrow> parse (k, alts @ [seqs (rev ts)], []) fs Nothing cs)
      else if c = 42 \<or> c = 43 \<or> (c = 63 \<and> q \<noteq> Quantified) then
        (case quantify (if c = 42 then Star else if c = 43 then Plus else Opt) f of
           Some f' \<Rightarrow> if q = Atom then parse f' fs Quantified cs else Invalid
         | None \<Rightarrow> Invalid)
      else if c = 63 then parse f fs Nothing cs
      else if c = 123 then
        (case interval cs of
           None \<Rightarrow> parse (push (chr c) f) fs Atom cs
         | Some (m, n, used) \<Rightarrow>
             (case quantify (repeat m n) f of
                Some f' \<Rightarrow>
                  if q = Atom \<and> (case n of None \<Rightarrow> True | Some k \<Rightarrow> m \<le> k)
                  then parse f' fs Quantified (drop used cs) else Invalid
              | None \<Rightarrow> Invalid))
      else if c = 94 then parse (push (NotBehind (\<lambda>c. True)) f) fs Nothing cs
      else if c = 36 then parse (push (NotAhead (CharSet (\<lambda>c. True) False)) f) fs Nothing cs
      else if c = 46 then parse (push (CharSet (\<lambda>c. \<not> line_terminator c) False) f) fs Atom cs
      else if c = 91 then
        (case char_class cs of
           Reading r used \<Rightarrow> parse (push r f) fs Atom (drop used cs)
         | Bad \<Rightarrow> Invalid
         | Unknown \<Rightarrow> Beyond)
      else parse (push (chr c) f) fs Atom cs)"

definition compile :: "ustring \<Rightarrow> parsed" where
  "compile source = parse (Bracket, [], []) [] Nothing source"

section \<open>The environment of the program\<close>

text \<open>
  What the program takes from its libraries and data files, none of it code of the
  repository: base-64 decoding (\<open>Buffer.from\<close>), the two document decoders (each
  yields the text, or the message of the error it raises; \<open>parseDocx\<close> is given a
  path and reads the file system), the entity recognisers of \<open>compromise\<close>
  (\<open>nlp(text).people().out('array')\<close> and the same for places), the two reference
  lists, and the message text the JavaScript engine gives each \<open>TypeError\<close> it raises.
  Of an entry of a reference list the program reads the \<open>name\<close> only.

  Three more things are the engine's and concern the regular expressions built from
  the language names. \<open>case_variants c\<close>, for a code unit \<open>c\<close> from 128 on, lists
  the other code units that case-insensitive matching without the \<open>u\<close> flag takes
  for the same character (those with the canonical form of \<open>c\<close>: the Unicode tables
  of the engine). \<open>RegExp_beyond source\<close> is what \<open>new RegExp(source, 'i')\<close>
  makes of source that the reader above leaves alone: nothing, when the constructor
  throws, or the \<open>test\<close> of the regular expression. \<open>regexp_message source\<close> is
  the message of the SyntaxError for an invalid source.
\<close>

type_synonym byte = "8 word"

record entry =
  name :: ustring

datatype throw_site = Destructure_uploadCv | Buffer_from_body | Read_headers | Split_fullName

datatype js_error = TypeError throw_site | Error ustring | SyntaxError ustring

record env =
  Buffer_from :: "ustring \<Rightarrow> byte list"
  pdfParse :: "byte list \<Rightarrow> ustring + ustring"
  parseDocx :: "ustring \<Rightarrow> (ustring \<rightharpoonup> byte list) \<Rightarrow> ustring + ustring"
  people :: "ustring \<Rightarrow> ustring list"
  places :: "ustring \<Rightarrow> ustring list"
  iso31661 :: "entry list"
  languages :: "entry list"
  engine_message :: "throw_site \<Rightarrow> ustring"
  case_variants :: "codeunit \<Rightarrow> codeunit list"
  RegExp_beyond :: "ustring \<Rightarrow> (ustring \<Rightarrow> bool) option"
  regexp_message :: "ustring \<Rightarrow> ustring"

definition error_message :: "env \<Rightarrow> js_error \<Rightarrow> ustring" where
  "error_message e err =
     (case err of
        TypeError site \<Rightarrow> engine_message e site
      | Error m \<Rightarrow> m
      | SyntaxError source \<Rightarrow> regexp_message e source)"

text \<open>
  The \<open>i\<close> flag on a pattern read from source. A character set matches a code unit
  when it holds one of the code units taken for the same character: for an ASCII code
  unit its two case variants, for any other the variants the engine lists, which are
  never ASCII (a code unit from 128 on keeps its canonical form when upper-casing would
  make it ASCII). \<open>fold_case\<close> extends every set of a pattern in this way; on such
  sets the matcher's own treatment of the flag (\<open>in_set\<close>) changes nothing.
\<close>

definition variants :: "env \<Rightarrow> codeunit \<Rightarrow> codeunit list" where
  "variants e c =
     (if c < 128 then [c, to_upper c, to_lower c]
      else c # filter (\<lambda>a. 128 \<le> a) (case_variants e c))"

definition folded :: "env \<Rightarrow> (codeunit \<Rightarrow> bool) \<Rightarrow> codeunit \<Rightarrow> bool" where
  "folded e A c = list_ex A (variants e c)"

fun fold_case :: "env \<Rightarrow> regex \<Rightarrow> regex" where
  "fold_case e Empty = Empty"
| "fold_case e (CharSet A neg) = CharSet (folded e A) neg"
| "fold_case e (Seq r s) = Seq (fold_case e r) (fold_case e s)"
| "fold_case e (Alt r s) = Alt (fold_case e r) (fold_case e s)"
| "fold_case e (Star r) = Star (fold_case e r)"
| "fold_case e (Opt r) = Opt (fold_case e r)"
| "fold_case e (Group n r) = Group n (fold_case e r)"
| "fold_case e WordBoundary = WordBoundary"
| "fold_case e (NotBehind A) = NotBehind (folded e A)"
| "fold_case e (NotAhead r) = NotAhead (fold_case e r)"

text \<open>
  \<open>new RegExp(source, 'i')\<close>: the SyntaxError it throws, or the regular expression
  as its \<open>test\<close> on the fresh object.
\<close>

definition RegExp_i :: "env \<Rightarrow> ustring \<Rightarrow> js_error + (ustring \<Rightarrow> bool)" where
  "RegExp_i e source =
     (case compile source of
        Invalid \<Rightarrow> Inl (SyntaxError source)
      | Parsed r \<Rightarrow>
          Inr (RegExp_test \<lparr>pattern = fold_case e r, ignoreCase = True, global = False\<rparr>)
      | Beyond \<Rightarrow>
          (case RegExp_beyond e source of
             None \<Rightarrow> Inl (SyntaxError source)
           | Some t \<Rightarrow> Inr t))"

text \<open>
  What outlives a call of the handler: the files of the file system, the \<open>lastIndex\<close>
  of the module-level \<open>salaryRegex\<close> (the one regular expression the program runs with
  \<open>exec\<close>), and, to speak about which decoder was called, the list of decoder calls
  made so far.
\<close>

datatype decoder = PdfDecoder | DocxDecoder

record world =
  files :: "ustring \<rightharpoonup> byte list"
  salary_lastIndex :: nat
  invoked :: "decoder list"

section \<open>Decoding\<close>

definition extractFromPDF :: "env \<Rightarrow> world \<Rightarrow> byte list \<Rightarrow> (js_error + ustring) \<times> world" where
  "extractFromPDF e w fileContent =
     (let w' = w\<lparr>invoked := invoked w @ [PdfDecoder]\<rparr> in
      case pdfParse e fileContent of
        Inr text \<Rightarrow> (Inr text, w')
      | Inl m \<Rightarrow> (Inl (Error (str ''Failed to parse PDF: '' @ m)), w'))"

definition tempFilePath :: ustring where
  "tempFilePath = str ''/tmp/resume.docx''"

definition extractFromDocx :: "env \<Rightarrow> world \<Rightarrow> byte list \<Rightarrow> (js_error + ustring) \<times> world" where
  "extractFromDocx e w fileContent =
     (let w1 = w\<lparr>files := (files w)(tempFilePath \<mapsto> fileContent)\<rparr>;
          w2 = w1\<lparr>invoked := invoked w1 @ [DocxDecoder]\<rparr> in
      case parseDocx e tempFilePath (files w1) of
        Inl m \<Rightarrow> (Inl (Error (str ''Failed to parse DOCX: '' @ m)), w2)
      | Inr data \<Rightarrow> (Inr data, w2\<lparr>files := (files w2)(tempFilePath := None)\<rparr>))"

section \<open>Field extractors\<close>

text \<open>\<open>s.split(sep)\<close> for a one-character separator: every piece, the empty ones too.\<close>

fun split_on :: "codeunit \<Rightarrow> ustring \<Rightarrow> ustring list" where
  "split_on sep [] = [[]]"
| "split_on sep (c # cs) =
     (if c = sep then [] # split_on sep cs
      else (case split_on sep cs of [] \<Rightarrow> [[c]] | p # ps \<Rightarrow> (c # p) # ps))"

definition trim :: "ustring \<Rightarrow> ustring" where
  "trim s = rev (dropWhile white_space (rev (dropWhile white_space s)))"

text \<open>Truthiness of an optional string (present and not empty), and \<open>a || b\<close>.\<close>

definition or_else :: "ustring option \<Rightarrow> ustring option \<Rightarrow> ustring option" where
  "or_else a b = (case a of Some (c # cs) \<Rightarrow> a | _ \<Rightarrow> b)"

definition truthy :: "ustring option \<Rightarrow> bool" where
  "truthy a \<longleftrightarrow> (case a of Some (c # cs) \<Rightarrow> True | _ \<Rightarrow> False)"

definition or_default :: "ustring option \<Rightarrow> ustring \<Rightarrow> ustring" where
  "or_default a d = (case a of Some (c # cs) \<Rightarrow> c # cs | _ \<Rightarrow> d)"

text \<open>
  \<open>extractFullName\<close>. The first element of \<open>people\<close> is read without a check:
  on an empty list it is undefined and \<open>fullName.split\<close> raises a TypeError. A last
  name is absent (None) when the split has one piece only; \<open>!lastName\<close> holds for an
  absent and for an empty last name. A split has at least one piece, so its empty case
  is never taken.
\<close>

definition extractFullName :: "env \<Rightarrow> ustring \<Rightarrow> js_error + (ustring \<times> ustring option)" where
  "extractFullName e text =
     (case people e text of
        [] \<Rightarrow> Inl (TypeError Split_fullName)
      | fullName # others \<Rightarrow>
          (case split_on 32 fullName of
             [] \<Rightarrow> Inr ([], None)
           | firstName # rest \<Rightarrow>
               (let lastName = (case rest of [] \<Rightarrow> None | l # _ \<Rightarrow> Some l)
                in case others of
                     [] \<Rightarrow> Inr (firstName, lastName)
                   | p1 # _ \<Rightarrow>
                       if \<not> truthy lastName \<and> length (split_on 32 p1) = 1
                       then Inr (firstName, Some p1)
                       else Inr (firstName, lastName))))"

definition extractEmail :: "ustring \<Rightarrow> ustring option" where
  "extractEmail text = String_match0 text emailRegex"

definition extractPhoneNumber :: "ustring \<Rightarrow> ustring option" where
  "extractPhoneNumber text = String_match0 text phoneRegex"

definition extractLinkedIn :: "ustring \<Rightarrow> ustring option" where
  "extractLinkedIn text = String_match0 text linkedInRegex"

definition extractCountry :: "env \<Rightarrow> ustring \<Rightarrow> ustring option" where
  "extractCountry e text =
     (let locations = concat (map (\<lambda>l. map trim (split_on 44 l)) (places e text));
          countries = filter (\<lambda>country. name country \<in> set locations) (iso31661 e)
      in case countries of [] \<Rightarrow> None | c # _ \<Rightarrow> Some (name c))"

text \<open>
  \<open>extractLanguages\<close> filters the reference list with a callback that builds, for
  the entry, the regular expression \<open>\bNAME\b\<close> with the \<open>i\<close> flag, the trimmed
  name being part of the pattern source, and tests the text with it. The constructor
  throws on an invalid source, which ends the filtering: \<open>filter_throwing\<close> is
  \<open>Array.prototype.filter\<close> with a callback that can throw. The result is the list
  of the entries kept, or null when it is empty.
\<close>

fun filter_throwing :: "('a \<Rightarrow> js_error + bool) \<Rightarrow> 'a list \<Rightarrow> js_error + 'a list" where
  "filter_throwing f [] = Inr []"
| "filter_throwing f (x # xs) =
     (case f x of
        Inl err \<Rightarrow> Inl err
      | Inr keep \<Rightarrow>
          (case filter_throwing f xs of
             Inl err \<Rightarrow> Inl err
           | Inr kept \<Rightarrow> Inr (if keep then x # kept else kept)))"

definition language_source :: "entry \<Rightarrow> ustring" where
  "language_source language = [92, 98] @ trim (name language) @ [92, 98]"

definition language_test :: "env \<Rightarrow> ustring \<Rightarrow> entry \<Rightarrow> js_error + bool" where
  "language_test e text language =
     (case RegExp_i e (language_source language) of
        Inl err \<Rightarrow> Inl err
      | Inr regex_test \<Rightarrow> Inr (regex_test text))"

definition extractLanguages :: "env \<Rightarrow> ustring \<Rightarrow> js_error + entry list option" where
  "extractLanguages e text =
     (case filter_throwing (language_test e text) (languages e) of
        Inl err \<Rightarrow> Inl err
      | Inr foundLanguages \<Rightarrow>
          Inr (if length foundLanguages > 0 then Some foundLanguages else None))"

definition extractWhatsApp :: "ustring \<Rightarrow> ustring option" where
  "extractWhatsApp text = String_match0 text whatsAppRegex"

definition extractTelegram :: "ustring \<Rightarrow> ustring option" where
  "extractTelegram text =
     (case String_match0 text telegramUrlRegex of
        Some url \<Rightarrow> Some url
      | None \<Rightarrow> String_match0 text telegramHandleRegex)"

text \<open>
  A JavaScript number, as far as the program makes one: NaN, or the decimal value the
  parsed text denotes. The number the engine holds is the double nearest to that value;
  the rounding is not modelled.
\<close>

datatype jsnumber = NaN | Finite rat

text \<open>
  \<open>parseFloat\<close> on an unsigned decimal literal without exponent, the only shape the
  \<open>amount\<close> group captures: the longest prefix of digits, a point and digits.
\<close>

definition parseFloat :: "ustring \<Rightarrow> jsnumber" where
  "parseFloat s =
     (let t = dropWhile white_space s;
          ip = takeWhile digit t;
          r = dropWhile digit t;
          fp = (case r of [] \<Rightarrow> [] | c # cs \<Rightarrow> if c = 46 then takeWhile digit cs else [])
      in if ip = [] \<and> fp = [] then NaN
         else Finite (of_nat (decimal 0 ip) + of_nat (decimal 0 fp) / 10 ^ length fp))"

definition currencyMap :: "ustring \<rightharpoonup> ustring" where
  "currencyMap = [[dollar] \<mapsto> str ''USD'', [euro] \<mapsto> str ''EUR'', [pound] \<mapsto> str ''GBP'']"

record salary =
  amount :: jsnumber
  currency :: ustring

definition extractSalary :: "world \<Rightarrow> ustring \<Rightarrow> salary option \<times> world" where
  "extractSalary w text =
     (let (salaryMatch, li) = RegExp_exec salaryRegex (salary_lastIndex w) text;
          w' = w\<lparr>salary_lastIndex := li\<rparr>
      in case salaryMatch of
           None \<Rightarrow> (None, w')
         | Some m \<Rightarrow>
             (case map_of (groups m) ''amount'' of
                Some (d # ds) \<Rightarrow>
                  (let amt = parseFloat (filter (\<lambda>c. c \<noteq> 44) (d # ds));
                       currencySymbol =
                         or_default (or_else (map_of (groups m) ''currencySymbol'')
                                             (map_of (groups m) ''currencySymbol2''))
                                    [dollar];
                       currencyCode = or_default (currencyMap currencySymbol) (str ''USD'')
                   in (Some \<lparr>amount = amt, currency = currencyCode\<rparr>, w'))
              | _ \<Rightarrow> (None, w')))"

section \<open>The handler\<close>

record uploadCv =
  body :: "ustring option"
  format :: "ustring option"

record event =
  uploadCv :: "uploadCv option"
  headers :: "(ustring \<rightharpoonup> ustring) option"

record extractedInfo =
  firstName :: ustring
  lastName :: "ustring option"
  fullName :: "ustring option"
  email :: "ustring option"
  phoneNumber :: "ustring option"
  linkedIn :: "ustring option"
  country :: "ustring option"
  languages_found :: "entry list option"
  whatsApp :: "ustring option"
  telegram :: "ustring option"
  desiredSalary :: "salary option"

record envelope =
  statusCode :: nat
  message :: "ustring option"
  data :: "extractedInfo option"
  error :: "ustring option"

text \<open>
  The handler is an async function: it returns an envelope, or throws (its promise
  rejects). Its writes to the console have no part in either and are left out.
\<close>

datatype outcome = Rejected js_error | Returned envelope

definition pdf_type :: ustring where
  "pdf_type = str ''application/pdf''"

definition docx_type :: ustring where
  "docx_type = str ''application/vnd.openxmlformats-officedocument.wordprocessingml.document''"

text \<open>
  The extractors run over the decoded text, in the order of the object literal. Two of
  them can throw: \<open>extractFullName\<close>, before the literal, and
  \<open>extractLanguages\<close>, in it. The extractors that run before \<open>extractLanguages\<close>
  neither throw nor change anything, and \<open>extractSalary\<close>, the one with an effect,
  runs after it.
\<close>

definition assemble :: "env \<Rightarrow> world \<Rightarrow> ustring \<Rightarrow> (js_error + envelope) \<times> world" where
  "assemble e w extractedText =
     (case extractFullName e extractedText of
        Inl err \<Rightarrow> (Inl err, w)
      | Inr (fname, lname) \<Rightarrow>
          (case extractLanguages e extractedText of
             Inl err \<Rightarrow> (Inl err, w)
           | Inr langs \<Rightarrow>
               (let (sal, w') = extractSalary w extractedText in
                (Inr \<lparr>statusCode = 200, message = None,
                      data = Some
                        \<lparr>firstName = fname,
                         lastName = lname,
                         fullName = (case lname of
                                       Some (c # cs) \<Rightarrow>
                                         if fname \<noteq> [] then Some (fname @ [32] @ c # cs) else None
                                     | _ \<Rightarrow> None),
                         email = extractEmail extractedText,
                         phoneNumber = extractPhoneNumber extractedText,
                         linkedIn = extractLinkedIn extractedText,
                         country = extractCountry e extractedText,
                         languages_found = langs,
                         whatsApp = extractWhatsApp extractedText,
                         telegram = extractTelegram extractedText,
                         desiredSalary = sal\<rparr>,
                      error = None\<rparr>, w'))))"

text \<open>The body of the \<open>try\<close> block: an envelope, or the error thrown inside it.\<close>

definition try_block :: "env \<Rightarrow> world \<Rightarrow> byte list \<Rightarrow> ustring option \<Rightarrow> (js_error + envelope) \<times> world" where
  "try_block e w fileContent fileType =
     (if fileType = Some pdf_type then
        (case extractFromPDF e w fileContent of
           (Inl err, w') \<Rightarrow> (Inl err, w')
         | (Inr extractedText, w') \<Rightarrow> assemble e w' extractedText)
      else if fileType = Some docx_type then
        (case extractFromDocx e w fileContent of
           (Inl err, w') \<Rightarrow> (Inl err, w')
         | (Inr extractedText, w') \<Rightarrow> assemble e w' extractedText)
      else (Inr \<lparr>statusCode = 400, message = Some (str ''Unsupported file type''),
                 data = None, error = None\<rparr>, w))"

text \<open>
  \<open>format ?? event.headers['Content-Type']\<close>: the format when the event gives one;
  otherwise the header, which may be absent (undefined), read from a \<open>headers\<close> object
  that must exist.
\<close>

definition declared_type :: "event \<Rightarrow> uploadCv \<Rightarrow> js_error + ustring option" where
  "declared_type ev cv =
     (case format cv of
        Some f \<Rightarrow> Inr (Some f)
      | None \<Rightarrow> (case headers ev of
                   None \<Rightarrow> Inl (TypeError Read_headers)
                 | Some h \<Rightarrow> Inr (h (str ''Content-Type''))))"

definition handler :: "env \<Rightarrow> world \<Rightarrow> event \<Rightarrow> outcome \<times> world" where
  "handler e w ev =
     (case uploadCv ev of
        None \<Rightarrow> (Rejected (TypeError Destructure_uploadCv), w)
      | Some cv \<Rightarrow>
          (case body cv of
             None \<Rightarrow> (Rejected (TypeError Buffer_from_body), w)
           | Some b \<Rightarrow>
               (let fileContent = Buffer_from e b in
                case declared_type ev cv of
                  Inl err \<Rightarrow> (Rejected err, w)
                | Inr fileType \<Rightarrow>
                    (case try_block e w fileContent fileType of
                       (Inr response, w') \<Rightarrow> (Returned response, w')
                     | (Inl err, w') \<Rightarrow>
                         (Returned \<lparr>statusCode = 500, message = Some (str ''Error parsing resume''),
                                    data = None, error = Some (error_message e err)\<rparr>, w')))))"


section \<open>Observations\<close>

text \<open>The record of a success envelope, when the handler returned one.\<close>

definition returned_data :: "outcome \<Rightarrow> extractedInfo option" where
  "returned_data r = (case r of Rejected err \<Rightarrow> None | Returned env \<Rightarrow> data env)"

text \<open>
  The locations \<open>extractCountry\<close> looks up: the pieces of the place entities, split on
  commas and trimmed.
\<close>

definition locations :: "env \<Rightarrow> ustring \<Rightarrow> ustring list" where
  "locations e text = concat (map (\<lambda>l. map trim (split_on 44 l)) (places e text))"

section \<open>The extractors in words\<close>

text \<open>Two strings that differ in the case of ASCII letters only.\<close>

definition same_ignoring_case :: "ustring \<Rightarrow> ustring \<Rightarrow> bool" where
  "same_ignoring_case s t \<longleftrightarrow> map to_upper s = map to_upper t"

text \<open>
  The languages extractor in words. \<open>same_letter e c x\<close>: the code unit \<open>c\<close> of a
  text is the character \<open>x\<close> of a name up to case, as the engine folds case. A name
  occurs in a text as a whole word, case-insensitively, when at some position the text
  continues with the name up to case, no word character stands right before the
  occurrence and none right after it; the word characters are those of \<open>\w\<close>, the
  ASCII letters, the digits and the underscore.
\<close>

definition same_letter :: "env \<Rightarrow> codeunit \<Rightarrow> codeunit \<Rightarrow> bool" where
  "same_letter e c x \<longleftrightarrow> x \<in> set (variants e c)"

definition same_letters :: "env \<Rightarrow> ustring \<Rightarrow> ustring \<Rightarrow> bool" where
  "same_letters e s t \<longleftrightarrow> list_all2 (same_letter e) s t"

definition occurs_as_word :: "env \<Rightarrow> ustring \<Rightarrow> ustring \<Rightarrow> bool" where
  "occurs_as_word e w text \<longleftrightarrow>
     list_ex (\<lambda>i. same_letters e (take (length w) (drop i text)) w \<and>
                  \<not> is_word_at (rev (take i text)) \<and>
                  \<not> is_word_at (drop (i + length w) text))
             [0..<Suc (length text)]"

text \<open>
  A name occurs between two word boundaries when at some position the text continues
  with the name up to case and there is a word boundary at either end of the
  occurrence: of the character before the place and the character after it, the one is
  a word character and the other is not, or is missing. For a name that begins and ends
  with a word character this is the occurrence as a whole word.
\<close>

definition occurs_between_boundaries :: "env \<Rightarrow> ustring \<Rightarrow> ustring \<Rightarrow> bool" where
  "occurs_between_boundaries e w text \<longleftrightarrow>
     list_ex (\<lambda>i. same_letters e (take (length w) (drop i text)) w \<and>
                  is_word_at (rev (take i text)) \<noteq> is_word_at (drop i text) \<and>
                  is_word_at (rev (take (i + length w) text)) \<noteq>
                    is_word_at (drop (i + length w) text))
             [0..<Suc (length text)]"

text \<open>
  The characters that pattern source does not take for themselves, and the plain names:
  those free of such characters that begin and end with a word character. For a name
  free of such characters, \<open>\bNAME\b\<close> is the name between two word boundaries.
\<close>

definition syntax_char :: "codeunit \<Rightarrow> bool" where
  "syntax_char c \<longleftrightarrow> c = 92 \<or> one_of ''^$.*+?()[{|'' c"

definition plain_name :: "ustring \<Rightarrow> bool" where
  "plain_name n \<longleftrightarrow> is_word_at n \<and> is_word_at (rev n) \<and> list_all (\<lambda>c. \<not> syntax_char c) n"


text \<open>
  The telegram extractor in words. A telegram URL is, up to the case of letters, an
  optional \<open>http://\<close> or \<open>https://\<close>, the host \<open>t.me\<close> or \<open>telegram.me\<close>, a
  slash and a non-empty run of characters that are not white space; \<open>url_starts a\<close>
  says that one starts at the beginning of \<open>a\<close>.
\<close>

definition starts_with :: "ustring \<Rightarrow> ustring \<Rightarrow> bool" where
  "starts_with p a \<longleftrightarrow> same_ignoring_case (take (length p) a) p"

definition url_prefixes :: "ustring list" where
  "url_prefixes =
     [str ''https://t.me/'', str ''https://telegram.me/'',
      str ''http://t.me/'', str ''http://telegram.me/'',
      str ''t.me/'', str ''telegram.me/'']"

definition nonspace_at :: "ustring \<Rightarrow> bool" where
  "nonspace_at a = (case a of [] \<Rightarrow> False | c # _ \<Rightarrow> \<not> white_space c)"

definition url_starts :: "ustring \<Rightarrow> bool" where
  "url_starts a \<longleftrightarrow> list_ex (\<lambda>p. starts_with p a \<and> nonspace_at (drop (length p) a)) url_prefixes"

definition telegram_url :: "ustring \<Rightarrow> bool" where
  "telegram_url u \<longleftrightarrow>
     list_ex (\<lambda>p. starts_with p u \<and> length p < length u \<and>
                  list_all (\<lambda>c. \<not> white_space c) (drop (length p) u))
             url_prefixes"

text \<open>
  The telegram handle in words: an \<open>@\<close> that no word character and no dot precedes,
  and the token after it, the whole run of word characters, at least one, with no dot
  and word character right after the token. \<open>handle_start\<close> is the \<open>@\<close> with a word
  character after it, \<open>handle_at\<close> adds what must not follow the token, and
  \<open>spec_first_handle\<close> is the first handle of a text so described.
\<close>

definition preceded_by_word_or_dot :: "ustring \<Rightarrow> bool" where
  "preceded_by_word_or_dot pre = (case rev pre of [] \<Rightarrow> False | c # _ \<Rightarrow> word_char c \<or> c = 46)"

definition followed_by_dot_word :: "ustring \<Rightarrow> bool" where
  "followed_by_dot_word a = (case a of d # c # _ \<Rightarrow> d = 46 \<and> word_char c | _ \<Rightarrow> False)"

definition handle_start :: "ustring \<Rightarrow> nat \<Rightarrow> bool" where
  "handle_start text i \<longleftrightarrow>
     i < length text \<and> text ! i = 64 \<and> \<not> preceded_by_word_or_dot (take i text) \<and>
     is_word_at (drop (Suc i) text)"

definition token_length :: "ustring \<Rightarrow> nat \<Rightarrow> nat" where
  "token_length text i = length (takeWhile word_char (drop (Suc i) text))"

definition handle_at :: "ustring \<Rightarrow> nat \<Rightarrow> bool" where
  "handle_at text i \<longleftrightarrow>
     handle_start text i \<and> \<not> followed_by_dot_word (drop (Suc i + token_length text i) text)"

definition handle_text :: "ustring \<Rightarrow> nat \<Rightarrow> ustring" where
  "handle_text text i = take (Suc (token_length text i)) (drop i text)"

definition spec_first_handle :: "ustring \<Rightarrow> ustring option" where
  "spec_first_handle text =
     (case filter (handle_at text) [0..<length text] of
        [] \<Rightarrow> None
      | i # _ \<Rightarrow> Some (handle_text text i))"

text \<open>
  What \<open>telegramHandleRegex\<close> can match at the beginning of \<open>a\<close>, the text before
  being \<open>pre\<close>: an \<open>@\<close> not preceded by a word character or a dot, and \<open>n\<close> word
  characters, at least one, with no dot and word character right after the \<open>n\<close>-th.
  The \<open>n\<close> characters need not be the whole token: where the lookahead fails after
  the token, the engine gives characters of it back.
\<close>

definition handle_match :: "ustring \<Rightarrow> ustring \<Rightarrow> nat \<Rightarrow> bool" where
  "handle_match pre a n \<longleftrightarrow>
     1 \<le> n \<and> n < length a \<and> take 1 a = [64] \<and> list_all word_char (take n (drop 1 a)) \<and>
     \<not> preceded_by_word_or_dot pre \<and> \<not> followed_by_dot_word (drop (Suc n) a)"

text \<open>
  \<open>literal_choices r ps\<close>: the pattern \<open>r\<close> matches, at any position, exactly the
  strings of \<open>ps\<close> up to case, tried in the order of \<open>ps\<close>.
\<close>

definition literal_choices :: "regex \<Rightarrow> ustring list \<Rightarrow> bool" where
  "literal_choices r ps \<longleftrightarrow>
     (\<forall>b a g. matches True r (b, a, g) =
        concat (map (\<lambda>p. if starts_with p a
                          then [(rev (take (length p) a) @ b, drop (length p) a, g)] else []) ps))"

text \<open>
  The strings a pattern can consume, assertions apart (a lookaround or a word boundary
  consumes nothing), the patterns without assertions, and the names of the groups of a
  pattern.
\<close>

fun lang :: "bool \<Rightarrow> regex \<Rightarrow> ustring set" where
  "lang ic Empty = {[]}"
| "lang ic (CharSet A neg) = {[c] | c. in_set ic A c \<noteq> neg}"
| "lang ic (Seq r s) = {u @ v | u v. u \<in> lang ic r \<and> v \<in> lang ic s}"
| "lang ic (Alt r s) = lang ic r \<union> lang ic s"
| "lang ic (Star r) = {concat ws | ws. set ws \<subseteq> lang ic r}"
| "lang ic (Opt r) = insert [] (lang ic r)"
| "lang ic (Group n r) = lang ic r"
| "lang ic WordBoundary = {[]}"
| "lang ic (NotBehind A) = {[]}"
| "lang ic (NotAhead r) = {[]}"

fun assertion_free :: "regex \<Rightarrow> bool" where
  "assertion_free Empty = True"
| "assertion_free (CharSet A neg) = True"
| "assertion_free (Seq r s) = (assertion_free r \<and> assertion_free s)"
| "assertion_free (Alt r s) = (assertion_free r \<and> assertion_free s)"
| "assertion_free (Star r) = assertion_free r"
| "assertion_free (Opt r) = assertion_free r"
| "assertion_free (Group n r) = assertion_free r"
| "assertion_free WordBoundary = False"
| "assertion_free (NotBehind A) = False"
| "assertion_free (NotAhead r) = False"

fun group_names :: "regex \<Rightarrow> string set" where
  "group_names Empty = {}"
| "group_names (CharSet A neg) = {}"
| "group_names (Seq r s) = group_names r \<union> group_names s"
| "group_names (Alt r s) = group_names r \<union> group_names s"
| "group_names (Star r) = group_names r"
| "group_names (Opt r) = group_names r"
| "group_names (Group n r) = insert n (group_names r)"
| "group_names WordBoundary = {}"
| "group_names (NotBehind A) = {}"
| "group_names (NotAhead r) = {}"

text \<open>
  The salary extractor in words. An amount is a non-empty run of digits, then groups
  of three digits, each with or without a comma in front, then optionally a point and
  one or two digits. The core of a salary phrase is a currency symbol, at most one
  white-space character, an amount and a space; the whole phrase may go on with up to
  two more spaces, a second currency symbol, up to two white-space characters and a
  period keyword.
\<close>

definition three_digits :: "ustring \<Rightarrow> bool" where
  "three_digits d \<longleftrightarrow> length d = 3 \<and> list_all digit d"

definition amount_text :: "ustring \<Rightarrow> bool" where
  "amount_text amt \<longleftrightarrow>
     (\<exists>lead gs frac. amt = lead @ concat gs @ frac \<and> lead \<noteq> [] \<and> list_all digit lead \<and>
        (\<forall>g \<in> set gs. three_digits g \<or> (\<exists>d. g = 44 # d \<and> three_digits d)) \<and>
        (frac = [] \<or> (\<exists>d. frac = 46 # d \<and> (length d = 1 \<or> length d = 2) \<and> list_all digit d)))"

definition salary_core :: "ustring \<Rightarrow> bool" where
  "salary_core s \<longleftrightarrow>
     (\<exists>sym sp amt. s = sym # sp @ amt @ [32] \<and> currency_symbol sym \<and>
        length sp \<le> 1 \<and> list_all white_space sp \<and> amount_text amt)"

definition period_keyword :: "ustring \<Rightarrow> bool" where
  "period_keyword kw \<longleftrightarrow>
     kw = [] \<or> list_ex (same_ignoring_case kw)
                 [str ''per year'', str ''annually'', str ''per annum'', str ''per month'']"

definition salary_phrase :: "ustring \<Rightarrow> bool" where
  "salary_phrase s \<longleftrightarrow>
     (\<exists>core sp3 sym2 ws kw. s = core @ sp3 @ sym2 @ ws @ kw \<and> salary_core core \<and>
        length sp3 \<le> 2 \<and> list_all (\<lambda>c. c = 32) sp3 \<and>
        length sym2 \<le> 1 \<and> list_all currency_symbol sym2 \<and>
        length ws \<le> 2 \<and> list_all white_space ws \<and> period_keyword kw)"

text \<open>Two parts of the pattern of \<open>salaryRegex\<close>, named.\<close>

definition salary_tail :: regex where
  "salary_tail = seqs
     [Opt (Group ''currencySymbol2'' (cls currency_symbol)),
      Opt (cls white_space),
      Opt (cls white_space),
      Opt (Alt (lit (str ''per year''))
          (Alt (lit (str ''annually''))
          (Alt (lit (str ''per annum'')) (lit (str ''per month'')))))]"

definition amount_pattern :: regex where
  "amount_pattern = seqs
     [Plus (cls digit),
      Star (Seq (Opt (chr 44)) (times 3 (cls digit) Empty)),
      Opt (Seq (chr 46) (between 1 2 (cls digit)))]"

section \<open>Evaluating the regular expressions\<close>

lemmas regex_eval =
  RegExp_exec_def String_match0_def str_def chr_def cls_def lit_def Plus_def between_def
  at_least_def currency_symbol_def dollar_def euro_def pound_def digit_def word_char_def
  white_space_def in_set_def to_upper_def to_lower_def is_word_at_def alpha_def one_of_def
  https_opt_def numeral_2_eq_2 numeral_3_eq_3

lemmas salary_eval =
  extractSalary_def salaryRegex_def parseFloat_def or_default_def or_else_def currencyMap_def

lemma salary_first_call:
  "salary_lastIndex w = 0 \<Longrightarrow>
   extractSalary w (str ''$50,000  per year'') =
     (Some \<lparr>amount = Finite 50000, currency = str ''USD''\<rparr>, w\<lparr>salary_lastIndex := 17\<rparr>)"
  by (simp add: salary_eval regex_eval)

lemma salary_second_call:
  "salary_lastIndex w = 17 \<Longrightarrow>
   extractSalary w (str ''$50,000  per year'') =
     (None, w\<lparr>salary_lastIndex := 0\<rparr>)"
  by (simp add: salary_eval regex_eval)

lemma salary_cv_first_call:
  "salary_lastIndex w = 0 \<Longrightarrow>
   extractSalary w (str ''John Smith $50,000  per year'') =
     (Some \<lparr>amount = Finite 50000, currency = str ''USD''\<rparr>, w\<lparr>salary_lastIndex := 28\<rparr>)"
  by (simp add: salary_eval regex_eval)

lemma salary_cv_second_call:
  "salary_lastIndex w = 28 \<Longrightarrow>
   extractSalary w (str ''John Smith $50,000  per year'') =
     (None, w\<lparr>salary_lastIndex := 0\<rparr>)"
  by (simp add: salary_eval regex_eval)

lemma salary_pound_no_space:
  "salary_lastIndex w = 0 \<Longrightarrow>
   extractSalary w (pound # str ''1200.50'') =
     (None, w\<lparr>salary_lastIndex := 0\<rparr>)"
  by (simp add: salary_eval regex_eval)

lemma salary_pound_space:
  "salary_lastIndex w = 0 \<Longrightarrow>
   extractSalary w (pound # str ''1200.50 '') =
     (Some \<lparr>amount = Finite (2401 / 2), currency = str ''GBP''\<rparr>, w\<lparr>salary_lastIndex := 9\<rparr>)"
  by (simp add: salary_eval regex_eval)

lemma docx_type_not_pdf_type: "docx_type \<noteq> pdf_type"
  by (simp add: docx_type_def pdf_type_def str_def)

section \<open>Properties of the matcher\<close>

text \<open>
  A match consumes a prefix of the remaining text and moves it, reversed, in front of
  the text before the position.
\<close>

lemma matches_consumes:
  "y \<in> set (matches ic r x) \<Longrightarrow>
     \<exists>s. fst (snd x) = s @ fst (snd y) \<and> fst y = rev s @ fst x"
proof (induction ic r x arbitrary: y rule: matches.induct)
  case (1 ic x)
  then show ?case by simp
next
  case (2 ic A neg b g)
  then show ?case by simp
next
  case (3 ic A neg b c cs g)
  then show ?case by (auto split: if_splits)
next
  case (4 ic r s x)
  from "4.prems" obtain z where z: "z \<in> set (matches ic r x)" and y: "y \<in> set (matches ic s z)"
    by auto
  from "4.IH"(1) [OF z] obtain s1 where s1: "fst (snd x) = s1 @ fst (snd z)" "fst z = rev s1 @ fst x"
    by blast
  from "4.IH"(2) [OF z y] obtain s2 where s2: "fst (snd z) = s2 @ fst (snd y)" "fst y = rev s2 @ fst z"
    by blast
  from s1 s2 show ?case by (intro exI [of _ "s1 @ s2"]) simp
next
  case (5 ic r s x)
  from "5.prems" have "y \<in> set (matches ic r x) \<or> y \<in> set (matches ic s x)" by simp
  then show ?case using "5.IH" by blast
next
  case (6 ic r b a g)
  show ?case
  proof (cases "y = (b, a, g)")
    case True
    then show ?thesis by simp
  next
    case False
    with "6.prems" obtain z where z: "z \<in> set (matches ic r (b, a, g))"
      and lt: "length (fst (snd z)) < length a" and y: "y \<in> set (matches ic (Star r) z)"
      by (auto split: if_splits)
    from "6.IH"(1) [OF z] obtain s1 where s1: "a = s1 @ fst (snd z)" "fst z = rev s1 @ b"
      by auto
    from "6.IH"(2) [OF z lt y] obtain s2
      where s2: "fst (snd z) = s2 @ fst (snd y)" "fst y = rev s2 @ fst z"
      by blast
    from s1 s2 show ?thesis by (intro exI [of _ "s1 @ s2"]) simp
  qed
next
  case (7 ic r b a g)
  from "7.prems" have "y = (b, a, g) \<or> y \<in> set (matches ic r (b, a, g))" by auto
  then show ?case using "7.IH" [of y] by auto
next
  case (8 ic n r b a g)
  from "8.prems" obtain z where z: "z \<in> set (matches ic r (b, a, g))"
    and y: "fst y = fst z" "fst (snd y) = fst (snd z)"
    by (auto split: prod.splits)
  from "8.IH" [OF z] y show ?case by simp
next
  case (9 ic b a g)
  then show ?case by (auto split: if_splits)
next
  case (10 ic A b a g)
  then show ?case by (auto split: if_splits list.splits)
next
  case (11 ic r x)
  then show ?case by (auto split: if_splits)
qed

lemma matches_rest_subset:
  "(b', a', g') \<in> set (matches ic r (b, a, g)) \<Longrightarrow> set a' \<subseteq> set a"
  by (drule matches_consumes) auto

lemma scan_None_iff:
  "scan ic r b a = None \<longleftrightarrow>
     (\<forall>i \<le> length a. matches ic r (rev (take i a) @ b, drop i a, []) = [])"
proof (induction a arbitrary: b)
  case Nil
  then show ?case by (auto split: list.splits)
next
  case (Cons c cs)
  have step: "(\<forall>i \<le> length (c # cs). matches ic r (rev (take i (c # cs)) @ b, drop i (c # cs), []) = []) \<longleftrightarrow>
      matches ic r (b, c # cs, []) = [] \<and>
      (\<forall>i \<le> length cs. matches ic r (rev (take i cs) @ c # b, drop i cs, []) = [])"
  proof
    assume a: "\<forall>i \<le> length (c # cs). matches ic r (rev (take i (c # cs)) @ b, drop i (c # cs), []) = []"
    from a [rule_format, of 0] have "matches ic r (b, c # cs, []) = []" by simp
    moreover have "matches ic r (rev (take i cs) @ c # b, drop i cs, []) = []" if "i \<le> length cs" for i
      using a [rule_format, of "Suc i"] that by simp
    ultimately show "matches ic r (b, c # cs, []) = [] \<and>
      (\<forall>i \<le> length cs. matches ic r (rev (take i cs) @ c # b, drop i cs, []) = [])"
      by blast
  next
    assume a: "matches ic r (b, c # cs, []) = [] \<and>
      (\<forall>i \<le> length cs. matches ic r (rev (take i cs) @ c # b, drop i cs, []) = [])"
    show "\<forall>i \<le> length (c # cs). matches ic r (rev (take i (c # cs)) @ b, drop i (c # cs), []) = []"
    proof (intro allI impI)
      fix i assume "i \<le> length (c # cs)"
      then show "matches ic r (rev (take i (c # cs)) @ b, drop i (c # cs), []) = []"
        using a by (cases i) auto
    qed
  qed
  show ?case
    unfolding step using Cons.IH [of "c # b"]
    by (auto split: list.splits)
qed

lemma seq_charset_Nil:
  "a = [] \<or> \<not> in_set ic A (hd a) \<Longrightarrow> matches ic (Seq (CharSet A False) r) (b, a, g) = []"
  by (cases a) auto

lemma seq_group_charset_Nil:
  "a = [] \<or> \<not> in_set ic A (hd a) \<Longrightarrow> matches ic (Seq (Group n (CharSet A False)) r) (b, a, g) = []"
  by (cases a) auto

lemma seq_Nil:
  "(\<And>y. y \<in> set (matches ic r x) \<Longrightarrow> matches ic s y = []) \<Longrightarrow> matches ic (Seq r s) x = []"
  by simp

section \<open>The handler's envelopes\<close>

text \<open>
  C10. An event without the \<open>uploadCv\<close> field, and an event whose \<open>uploadCv\<close> has no
  \<open>format\<close> while the event has no \<open>headers\<close>, make the handler throw before the
  \<open>try\<close> block: its promise rejects, no envelope is returned, and nothing of the world
  has changed.
\<close>

theorem handler_rejects_malformed_event:
  "(uploadCv ev = None \<longrightarrow> (\<exists>err. handler e w ev = (Rejected err, w))) \<and>
   (\<forall>cv. uploadCv ev = Some cv \<and> format cv = None \<and> headers ev = None \<longrightarrow>
         (\<exists>err. handler e w ev = (Rejected err, w)))"
  by (auto simp: handler_def declared_type_def split: option.splits)

theorem handler_rejects_malformed_event_witness:
  "\<forall>e w. (\<exists>err. handler e w \<lparr>uploadCv = None, headers = Some Map.empty\<rparr> = (Rejected err, w)) \<and>
     (\<exists>err. handler e w \<lparr>uploadCv = Some \<lparr>body = Some (str ''QUJD''), format = None\<rparr>, headers = None\<rparr>
               = (Rejected err, w)) \<and>
     (\<exists>err. handler e w \<lparr>uploadCv = Some \<lparr>body = None, format = None\<rparr>, headers = None\<rparr>
               = (Rejected err, w))"
proof (intro allI conjI)
  fix e :: env and w :: world
  show "\<exists>err. handler e w \<lparr>uploadCv = None, headers = Some Map.empty\<rparr> = (Rejected err, w)"
    using handler_rejects_malformed_event [of "\<lparr>uploadCv = None, headers = Some Map.empty\<rparr>" e w]
    by simp
  show "\<exists>err. handler e w \<lparr>uploadCv = Some \<lparr>body = Some (str ''QUJD''), format = None\<rparr>, headers = None\<rparr>
               = (Rejected err, w)"
    using handler_rejects_malformed_event
      [of "\<lparr>uploadCv = Some \<lparr>body = Some (str ''QUJD''), format = None\<rparr>, headers = None\<rparr>" e w]
    by simp
  show "\<exists>err. handler e w \<lparr>uploadCv = Some \<lparr>body = None, format = None\<rparr>, headers = None\<rparr>
               = (Rejected err, w)"
    using handler_rejects_malformed_event
      [of "\<lparr>uploadCv = Some \<lparr>body = None, format = None\<rparr>, headers = None\<rparr>" e w]
    by simp
qed

text \<open>
  C4. A request (an event with an \<open>uploadCv\<close> that has a body) whose declared type is
  neither \<open>application/pdf\<close> nor the DOCX type gets the envelope with status 400 and
  the message "Unsupported file type"; the world is left as it was, so neither decoder
  has been called.
\<close>

theorem unsupported_type_400:
  assumes "uploadCv ev = Some cv" and "body cv = Some b"
    and "declared_type ev cv = Inr fileType"
    and "fileType \<noteq> Some pdf_type" and "fileType \<noteq> Some docx_type"
  shows "handler e w ev =
           (Returned \<lparr>statusCode = 400, message = Some (str ''Unsupported file type''),
                      data = None, error = None\<rparr>, w)
         \<and> invoked (snd (handler e w ev)) = invoked w"
  using assms by (simp add: handler_def try_block_def)

theorem unsupported_type_400_witness:
  "\<forall>e w. handler e w \<lparr>uploadCv = Some \<lparr>body = Some (str ''QUJD''), format = Some (str ''text/plain'')\<rparr>,
                        headers = None\<rparr> =
           (Returned \<lparr>statusCode = 400, message = Some (str ''Unsupported file type''),
                      data = None, error = None\<rparr>, w)"
proof (intro allI)
  fix e :: env and w :: world
  let ?cv = "\<lparr>body = Some (str ''QUJD''), format = Some (str ''text/plain'')\<rparr>"
  let ?ev = "\<lparr>uploadCv = Some ?cv, headers = None\<rparr>"
  have 1: "uploadCv ?ev = Some ?cv" by simp
  have 2: "body ?cv = Some (str ''QUJD'')" by simp
  have 3: "declared_type ?ev ?cv = Inr (Some (str ''text/plain''))"
    by (simp add: declared_type_def)
  have 4: "Some (str ''text/plain'') \<noteq> Some pdf_type"
    by (simp add: pdf_type_def str_def)
  have 5: "Some (str ''text/plain'') \<noteq> Some docx_type"
    by (simp add: docx_type_def str_def)
  from unsupported_type_400 [OF 1 2 3 4 5, of e w]
  show "handler e w ?ev =
          (Returned \<lparr>statusCode = 400, message = Some (str ''Unsupported file type''),
                     data = None, error = None\<rparr>, w)"
    by simp
qed

text \<open>
  C5. A request with a supported declared type whose decoder fails gets the envelope
  with status 500, the message "Error parsing resume" and, as its error, the decode
  failure ("Failed to parse PDF: " or "Failed to parse DOCX: " and the decoder's
  message); the envelope carries no data.
\<close>

theorem decode_failure_500:
  assumes "uploadCv ev = Some cv" and "body cv = Some b"
    and "declared_type ev cv = Inr (Some fileType)"
  shows "(fileType = pdf_type \<and> pdfParse e (Buffer_from e b) = Inl m \<longrightarrow>
            fst (handler e w ev) =
              Returned \<lparr>statusCode = 500, message = Some (str ''Error parsing resume''),
                         data = None, error = Some (str ''Failed to parse PDF: '' @ m)\<rparr>) \<and>
         (fileType = docx_type \<and>
            parseDocx e tempFilePath ((files w)(tempFilePath \<mapsto> Buffer_from e b)) = Inl m \<longrightarrow>
            fst (handler e w ev) =
              Returned \<lparr>statusCode = 500, message = Some (str ''Error parsing resume''),
                         data = None, error = Some (str ''Failed to parse DOCX: '' @ m)\<rparr>)"
  using assms docx_type_not_pdf_type
  by (auto simp: handler_def try_block_def extractFromPDF_def extractFromDocx_def
      error_message_def Let_def)

theorem decode_failure_500_witness:
  "\<forall>e w.
     fst (handler (e\<lparr>pdfParse := \<lambda>c. Inl (str ''bad XRef entry'')\<rparr>) w
            \<lparr>uploadCv = Some \<lparr>body = Some (str ''QUJD''), format = Some pdf_type\<rparr>, headers = None\<rparr>) =
       Returned \<lparr>statusCode = 500, message = Some (str ''Error parsing resume''), data = None,
                  error = Some (str ''Failed to parse PDF: '' @ str ''bad XRef entry'')\<rparr> \<and>
     fst (handler (e\<lparr>parseDocx := \<lambda>p fs. Inl (str ''not a zip file'')\<rparr>) w
            \<lparr>uploadCv = Some \<lparr>body = Some (str ''QUJD''), format = Some docx_type\<rparr>, headers = None\<rparr>) =
       Returned \<lparr>statusCode = 500, message = Some (str ''Error parsing resume''), data = None,
                  error = Some (str ''Failed to parse DOCX: '' @ str ''not a zip file'')\<rparr>"
proof (intro allI conjI)
  fix e :: env and w :: world
  let ?pv = "\<lparr>body = Some (str ''QUJD''), format = Some pdf_type\<rparr>"
  let ?dv = "\<lparr>body = Some (str ''QUJD''), format = Some docx_type\<rparr>"
  have p: "declared_type \<lparr>uploadCv = Some ?pv, headers = None\<rparr> ?pv = Inr (Some pdf_type)"
    by (simp add: declared_type_def)
  have d: "declared_type \<lparr>uploadCv = Some ?dv, headers = None\<rparr> ?dv = Inr (Some docx_type)"
    by (simp add: declared_type_def)
  show "fst (handler (e\<lparr>pdfParse := \<lambda>c. Inl (str ''bad XRef entry'')\<rparr>) w
            \<lparr>uploadCv = Some ?pv, headers = None\<rparr>) =
       Returned \<lparr>statusCode = 500, message = Some (str ''Error parsing resume''), data = None,
                  error = Some (str ''Failed to parse PDF: '' @ str ''bad XRef entry'')\<rparr>"
    using decode_failure_500 [OF _ _ p, of "str ''QUJD''"
        "e\<lparr>pdfParse := \<lambda>c. Inl (str ''bad XRef entry'')\<rparr>" "str ''bad XRef entry''" w]
    by simp
  show "fst (handler (e\<lparr>parseDocx := \<lambda>p fs. Inl (str ''not a zip file'')\<rparr>) w
            \<lparr>uploadCv = Some ?dv, headers = None\<rparr>) =
       Returned \<lparr>statusCode = 500, message = Some (str ''Error parsing resume''), data = None,
                  error = Some (str ''Failed to parse DOCX: '' @ str ''not a zip file'')\<rparr>"
    using decode_failure_500 [OF _ _ d, of "str ''QUJD''"
        "e\<lparr>parseDocx := \<lambda>p fs. Inl (str ''not a zip file'')\<rparr>" "str ''not a zip file''" w]
    by simp
qed


text \<open>
  C1. With no person entity recognised, \<open>extractFullName\<close> does not return a pair of
  nulls: it throws a TypeError (the first element of the empty list is undefined and
  has no \<open>split\<close>), and the handler, which catches it, answers a PDF request with the
  500 envelope instead of a success envelope.
\<close>

theorem no_person_entity_throws:
  assumes "people e text = []"
  shows "extractFullName e text = Inl (TypeError Split_fullName) \<and>
         (\<forall>w b. pdfParse e (Buffer_from e b) = Inr text \<longrightarrow>
            fst (handler e w \<lparr>uploadCv = Some \<lparr>body = Some b, format = Some pdf_type\<rparr>,
                              headers = None\<rparr>) =
              Returned \<lparr>statusCode = 500, message = Some (str ''Error parsing resume''),
                         data = None, error = Some (engine_message e Split_fullName)\<rparr>)"
  using assms
  by (simp add: extractFullName_def handler_def declared_type_def try_block_def
      extractFromPDF_def assemble_def error_message_def)

theorem no_person_entity_throws_witness:
  "\<forall>e w. fst (handler (e\<lparr>pdfParse := \<lambda>c. Inr (str ''reach me at jane.doe@example.com today''),
                           people := \<lambda>t. []\<rparr>) w
                 \<lparr>uploadCv = Some \<lparr>body = Some (str ''QUJD''), format = Some pdf_type\<rparr>,
                  headers = None\<rparr>) =
           Returned \<lparr>statusCode = 500, message = Some (str ''Error parsing resume''),
                      data = None, error = Some (engine_message e Split_fullName)\<rparr>"
proof (intro allI)
  fix e :: env and w :: world
  let ?e = "e\<lparr>pdfParse := \<lambda>c. Inr (str ''reach me at jane.doe@example.com today''),
               people := \<lambda>t. []\<rparr>"
  have "people ?e (str ''reach me at jane.doe@example.com today'') = []" by simp
  from no_person_entity_throws [OF this]
  show "fst (handler ?e w \<lparr>uploadCv = Some \<lparr>body = Some (str ''QUJD''), format = Some pdf_type\<rparr>,
                  headers = None\<rparr>) =
           Returned \<lparr>statusCode = 500, message = Some (str ''Error parsing resume''),
                      data = None, error = Some (engine_message e Split_fullName)\<rparr>"
    by simp
qed

section \<open>The transient DOCX file\<close>

text \<open>
  C3. The file written for the DOCX decoder is removed when the decoder succeeds, and
  is still there, with the request's bytes, when the decoder fails: the callback
  returns on the error before it reaches \<open>unlinkSync\<close>.
\<close>

theorem docx_temp_file_after_decode:
  "(parseDocx e tempFilePath ((files w)(tempFilePath \<mapsto> content)) = Inl m \<longrightarrow>
      files (snd (extractFromDocx e w content)) tempFilePath = Some content) \<and>
   (parseDocx e tempFilePath ((files w)(tempFilePath \<mapsto> content)) = Inr t \<longrightarrow>
      files (snd (extractFromDocx e w content)) tempFilePath = None)"
  by (simp add: extractFromDocx_def Let_def)

theorem docx_temp_file_after_decode_witness:
  "\<forall>e w. files (snd (extractFromDocx (e\<lparr>parseDocx := \<lambda>p fs. Inl (str ''not a zip file'')\<rparr>) w []))
            tempFilePath = Some [] \<and>
     files (snd (handler (e\<lparr>parseDocx := \<lambda>p fs. Inl (str ''not a zip file''), Buffer_from := \<lambda>b. []\<rparr>) w
                  \<lparr>uploadCv = Some \<lparr>body = Some [], format = Some docx_type\<rparr>, headers = None\<rparr>))
            tempFilePath = Some []"
proof (intro allI conjI)
  fix e :: env and w :: world
  let ?e = "e\<lparr>parseDocx := \<lambda>p fs. Inl (str ''not a zip file'')\<rparr>"
  show "files (snd (extractFromDocx ?e w [])) tempFilePath = Some []"
    using docx_temp_file_after_decode [of ?e w "[]" "str ''not a zip file''"] by simp
  then show "files (snd (handler (e\<lparr>parseDocx := \<lambda>p fs. Inl (str ''not a zip file''), Buffer_from := \<lambda>b. []\<rparr>) w
                  \<lparr>uploadCv = Some \<lparr>body = Some [], format = Some docx_type\<rparr>, headers = None\<rparr>))
            tempFilePath = Some []"
    using docx_type_not_pdf_type
    by (simp add: handler_def declared_type_def try_block_def extractFromDocx_def Let_def)
qed

section \<open>The country extractor\<close>

lemma split_on_not_Nil: "split_on sep s \<noteq> []"
  by (induction s) (auto split: list.splits)

lemma split_on_no_sep: "q \<in> set (split_on sep s) \<Longrightarrow> sep \<notin> set q"
  by (induction s arbitrary: q) (auto split: if_splits list.splits)

lemma find_first_filter:
  "filter P xs = c # cs \<Longrightarrow> \<exists>pre post. xs = pre @ c # post \<and> P c \<and> (\<forall>d \<in> set pre. \<not> P d)"
proof (induction xs)
  case Nil
  then show ?case by simp
next
  case (Cons x xs)
  show ?case
  proof (cases "P x")
    case True
    with Cons.prems have "x = c" by simp
    with True show ?thesis by (intro exI [of _ "[]"] exI [of _ xs]) auto
  next
    case False
    with Cons.prems have "filter P xs = c # cs" by simp
    from Cons.IH [OF this] obtain pre post
      where "xs = pre @ c # post" "P c" "\<forall>d \<in> set pre. \<not> P d" by blast
    with False show ?thesis by (intro exI [of _ "x # pre"] exI [of _ post]) auto
  qed
qed

lemma trim_subset: "set (trim s) \<subseteq> set s"
proof -
  have "set (dropWhile white_space (rev (dropWhile white_space s))) \<subseteq> set (rev (dropWhile white_space s))"
    by (rule set_dropWhileD [THEN subsetI])
  also have "\<dots> \<subseteq> set s" by (auto dest: set_dropWhileD)
  finally show ?thesis by (simp add: trim_def)
qed

lemma trim_ends:
  assumes "trim s \<noteq> []"
  shows "\<not> white_space (hd (trim s)) \<and> \<not> white_space (last (trim s))"
proof -
  let ?t = "dropWhile white_space s"
  let ?u = "dropWhile white_space (rev ?t)"
  from assms have u: "?u \<noteq> []" by (simp add: trim_def)
  have t: "?t \<noteq> []"
  proof
    assume a: "?t = []"
    have "?u = dropWhile white_space (rev [])" unfolding a by (rule refl)
    with u show False by simp
  qed
  from u have "\<not> white_space (hd ?u)" by (rule hd_dropWhile)
  then have l: "\<not> white_space (last (trim s))"
    using u by (simp add: trim_def last_rev)
  from t have ht: "\<not> white_space (hd ?t)" by (rule hd_dropWhile)
  obtain v where v: "rev ?t = v @ ?u" by (metis takeWhile_dropWhile_id)
  then have tu: "?t = rev ?u @ rev v" by (metis rev_append rev_rev_ident)
  from u have "rev ?u \<noteq> []" by (simp only: rev_is_Nil_conv not_False_eq_True)
  with tu have "hd ?t = hd (rev ?u)" by (metis hd_append2)
  with ht have "\<not> white_space (hd (rev ?u))" by metis
  then have "\<not> white_space (hd (trim s))" unfolding trim_def .
  with l show ?thesis by simp
qed

lemma locations_pieces:
  assumes "p \<in> set (locations e text)"
  shows "44 \<notin> set p \<and> (p \<noteq> [] \<longrightarrow> \<not> white_space (hd p) \<and> \<not> white_space (last p))"
proof -
  from assms obtain l q where "l \<in> set (places e text)" and q: "q \<in> set (split_on 44 l)" and p: "p = trim q"
    by (auto simp: locations_def)
  from split_on_no_sep [OF q] trim_subset [of q] have "44 \<notin> set p" unfolding p by auto
  with trim_ends [of q] show ?thesis unfolding p by simp
qed

lemmas country_eval = extractCountry_def locations_def trim_def white_space_def str_def

text \<open>
  C8. \<open>extractCountry\<close> returns null exactly when no entry of the reference list is
  named by a location; otherwise it returns the name of the first entry, in the order
  of the reference list, that a location names. The locations are the pieces of the
  place entities, split on commas and trimmed: no location holds a comma, or begins or
  ends with white space.
\<close>

theorem country_first_in_reference_order:
  "(extractCountry e text = None \<longleftrightarrow>
      (\<forall>c \<in> set (iso31661 e). name c \<notin> set (locations e text))) \<and>
   (\<forall>n. extractCountry e text = Some n \<longrightarrow>
      (\<exists>pre c post. iso31661 e = pre @ c # post \<and> name c = n \<and> n \<in> set (locations e text) \<and>
         (\<forall>d \<in> set pre. name d \<notin> set (locations e text)))) \<and>
   (\<forall>p. p \<in> set (locations e text) \<longleftrightarrow>
      (\<exists>l \<in> set (places e text). \<exists>q \<in> set (split_on 44 l). p = trim q)) \<and>
   (\<forall>p \<in> set (locations e text).
      44 \<notin> set p \<and> (p \<noteq> [] \<longrightarrow> \<not> white_space (hd p) \<and> \<not> white_space (last p)))"
proof (intro conjI allI impI)
  show "\<forall>p \<in> set (locations e text).
      44 \<notin> set p \<and> (p \<noteq> [] \<longrightarrow> \<not> white_space (hd p) \<and> \<not> white_space (last p))"
    using locations_pieces by blast
next
  let ?P = "\<lambda>country. name country \<in> set (locations e text)"
  have ec: "extractCountry e text =
      (case filter ?P (iso31661 e) of [] \<Rightarrow> None | c # _ \<Rightarrow> Some (name c))"
    by (simp add: extractCountry_def locations_def Let_def)
  show "extractCountry e text = None \<longleftrightarrow>
      (\<forall>c \<in> set (iso31661 e). name c \<notin> set (locations e text))"
  proof (cases "filter ?P (iso31661 e)")
    case Nil
    then show ?thesis unfolding ec by (simp add: filter_empty_conv)
  next
    case (Cons c cs)
    then have "c \<in> set (filter ?P (iso31661 e))" by simp
    then have "c \<in> set (iso31661 e)" and "?P c" by simp_all
    with Cons show ?thesis unfolding ec by auto
  qed
  show "\<exists>pre c post. iso31661 e = pre @ c # post \<and> name c = n \<and> n \<in> set (locations e text) \<and>
         (\<forall>d \<in> set pre. name d \<notin> set (locations e text))"
    if "extractCountry e text = Some n" for n
  proof -
    from that obtain c cs where f: "filter ?P (iso31661 e) = c # cs" and n: "name c = n"
      unfolding ec by (auto split: list.splits)
    from find_first_filter [OF f] n show ?thesis by blast
  qed
  show "p \<in> set (locations e text) \<longleftrightarrow>
      (\<exists>l \<in> set (places e text). \<exists>q \<in> set (split_on 44 l). p = trim q)" for p
    by (auto simp: locations_def)
qed

theorem country_first_in_reference_order_witness:
  "\<forall>e. extractCountry (e\<lparr>places := \<lambda>t. [str ''Berlin''],
                         iso31661 := [\<lparr>name = str ''France''\<rparr>, \<lparr>name = str ''Germany''\<rparr>]\<rparr>)
          (str ''I live in Berlin'') = None \<and>
       extractCountry (e\<lparr>places := \<lambda>t. [str ''Berlin, Germany'', str ''Paris, France''],
                         iso31661 := [\<lparr>name = str ''France''\<rparr>, \<lparr>name = str ''Germany''\<rparr>]\<rparr>)
          (str ''Berlin, Germany; then Paris, France'') = Some (str ''France'')"
proof (intro allI conjI)
  fix e :: env
  let ?e = "e\<lparr>places := \<lambda>t. [str ''Berlin''],
               iso31661 := [\<lparr>name = str ''France''\<rparr>, \<lparr>name = str ''Germany''\<rparr>]\<rparr>"
  have "\<forall>c \<in> set (iso31661 ?e). name c \<notin> set (locations ?e (str ''I live in Berlin''))"
    by (simp add: country_eval)
  with country_first_in_reference_order [of ?e "str ''I live in Berlin''"]
  show "extractCountry ?e (str ''I live in Berlin'') = None" by blast
  let ?f = "e\<lparr>places := \<lambda>t. [str ''Berlin, Germany'', str ''Paris, France''],
               iso31661 := [\<lparr>name = str ''France''\<rparr>, \<lparr>name = str ''Germany''\<rparr>]\<rparr>"
  show "extractCountry ?f (str ''Berlin, Germany; then Paris, France'') = Some (str ''France'')"
    using country_first_in_reference_order [of ?f "str ''Berlin, Germany; then Paris, France''"]
    by (simp add: country_eval)
qed


section \<open>The languages extractor\<close>

lemma in_set_literal: "in_set True (\<lambda>x. x = p) c \<longleftrightarrow> to_upper c = to_upper p"
  by (auto simp: in_set_def to_upper_def to_lower_def)

lemma matches_lit:
  "matches True (lit n) (b, a, g) =
     (if same_ignoring_case (take (length n) a) n
      then [(rev (take (length n) a) @ b, drop (length n) a, g)] else [])"
proof (induction n arbitrary: b a)
  case Nil
  then show ?case by (simp add: lit_def same_ignoring_case_def)
next
  case (Cons p n)
  have l: "lit (p # n) = Seq (chr p) (lit n)" by (simp add: lit_def)
  show ?case
  proof (cases a)
    case Nil
    then show ?thesis by (simp add: l chr_def same_ignoring_case_def)
  next
    case (Cons c cs)
    then show ?thesis
      using Cons.IH [of "c # b" cs]
      by (simp add: l chr_def in_set_literal same_ignoring_case_def)
  qed
qed

lemma same_ignoring_case_length: "same_ignoring_case s t \<Longrightarrow> length s = length t"
  unfolding same_ignoring_case_def by (metis length_map)

lemma is_word_at_append: "s \<noteq> [] \<Longrightarrow> is_word_at (s @ t) = is_word_at s"
  by (cases s) (simp_all add: is_word_at_def)

lemma ex_le_upt: "(\<exists>i \<le> n. P i) \<longleftrightarrow> list_ex P [0..<Suc n]"
  by (auto simp del: upt_Suc simp: list_ex_iff less_Suc_eq_le)

lemma variants_word: "x \<in> set (variants e c) \<Longrightarrow> word_char x = word_char c"
  by (auto simp: variants_def word_char_def digit_def to_upper_def to_lower_def split: if_splits)

lemma variants_to_upper: "set (variants e (to_upper c)) \<subseteq> set (variants e c)"
  by (auto simp: variants_def to_upper_def to_lower_def split: if_splits)

lemma variants_to_lower: "set (variants e (to_lower c)) \<subseteq> set (variants e c)"
  by (auto simp: variants_def to_upper_def to_lower_def split: if_splits)

lemma in_set_folded: "in_set True (folded e A) c = folded e A c"
  using variants_to_upper [of e c] variants_to_lower [of e c]
  by (auto simp: in_set_def folded_def list_ex_iff)

lemma in_set_folded_literal: "in_set True (folded e (\<lambda>x. x = p)) c = same_letter e c p"
  by (auto simp: in_set_folded folded_def same_letter_def list_ex_iff)

lemma fold_case_seqs: "fold_case e (seqs rs) = seqs (map (fold_case e) rs)"
  by (induction rs) simp_all

lemma concat_map_twice:
  "concat (map (\<lambda>y. concat (map f (g y))) xs) = concat (map f (concat (map g xs)))"
  by (induction xs) simp_all

lemma matches_seqs_append:
  "matches ic (seqs (rs @ ss)) x = concat (map (matches ic (seqs ss)) (matches ic (seqs rs) x))"
proof (induction rs arbitrary: x)
  case Nil
  then show ?case by simp
next
  case (Cons r rs)
  have "matches ic (seqs (rs @ ss)) =
          (\<lambda>y. concat (map (matches ic (seqs ss)) (matches ic (seqs rs) y)))"
    by (rule ext) (rule Cons.IH)
  then have "matches ic (seqs ((r # rs) @ ss)) x =
          concat (map (\<lambda>y. concat (map (matches ic (seqs ss)) (matches ic (seqs rs) y)))
                      (matches ic r x))"
    by simp
  also have "\<dots> = concat (map (matches ic (seqs ss)) (matches ic (seqs (r # rs)) x))"
    by (simp add: concat_map_twice)
  finally show ?case .
qed

lemma matches_folded_lit:
  "matches True (seqs (map (\<lambda>p. CharSet (folded e (\<lambda>x. x = p)) False) n)) (b, a, g) =
     (if same_letters e (take (length n) a) n
      then [(rev (take (length n) a) @ b, drop (length n) a, g)] else [])"
proof (induction n arbitrary: b a)
  case Nil
  then show ?case by (simp add: same_letters_def)
next
  case (Cons p n)
  show ?case
  proof (cases a)
    case Nil
    then show ?thesis by (simp add: same_letters_def)
  next
    case (Cons c cs)
    then show ?thesis
      using Cons.IH [of "c # b" cs]
      by (simp add: in_set_folded_literal same_letters_def)
  qed
qed

lemma same_letters_length: "same_letters e s t \<Longrightarrow> length s = length t"
  unfolding same_letters_def by (rule list_all2_lengthD)

lemma same_letters_word_first: "same_letters e s t \<Longrightarrow> is_word_at s = is_word_at t"
  unfolding same_letters_def is_word_at_def
  by (cases s; cases t) (auto simp: same_letter_def dest: variants_word)

lemma same_letters_rev: "same_letters e s t \<Longrightarrow> same_letters e (rev s) (rev t)"
  unfolding same_letters_def by simp

lemma boundary_pattern_matches:
  "matches True (fold_case e (seqs (WordBoundary # map chr n @ [WordBoundary]))) (b, a, []) \<noteq> [] \<longleftrightarrow>
     same_letters e (take (length n) a) n \<and> is_word_at b \<noteq> is_word_at a \<and>
     is_word_at (rev (take (length n) a) @ b) \<noteq> is_word_at (drop (length n) a)"
proof -
  let ?L = "map (\<lambda>p. CharSet (folded e (\<lambda>x. x = p)) False) n"
  let ?occ = "take (length n) a"
  have f: "fold_case e (seqs (WordBoundary # map chr n @ [WordBoundary])) =
             Seq WordBoundary (seqs (?L @ [WordBoundary]))"
    by (simp add: fold_case_seqs chr_def comp_def)
  have m: "matches True (seqs (?L @ [WordBoundary])) (b, a, []) =
             (if same_letters e ?occ n \<and> is_word_at (rev ?occ @ b) \<noteq> is_word_at (drop (length n) a)
              then [(rev ?occ @ b, drop (length n) a, [])] else [])"
    by (simp add: matches_seqs_append matches_folded_lit)
  have fm: "matches True (fold_case e (seqs (WordBoundary # map chr n @ [WordBoundary]))) (b, a, []) =
              (if is_word_at b \<noteq> is_word_at a
               then matches True (seqs (?L @ [WordBoundary])) (b, a, []) else [])"
    unfolding f by simp
  show ?thesis unfolding fm m by auto
qed

lemma word_pattern_matches:
  assumes "plain_name n"
  shows "matches True (fold_case e (seqs (WordBoundary # map chr n @ [WordBoundary]))) (b, a, []) \<noteq> [] \<longleftrightarrow>
           same_letters e (take (length n) a) n \<and> \<not> is_word_at b \<and>
           \<not> is_word_at (drop (length n) a)"
proof (cases "same_letters e (take (length n) a) n")
  case False
  then show ?thesis unfolding boundary_pattern_matches by simp
next
  case True
  let ?occ = "take (length n) a"
  from assms have n: "is_word_at n" "is_word_at (rev n)" by (simp_all add: plain_name_def)
  then have "n \<noteq> []" by (auto simp: is_word_at_def)
  with same_letters_length [OF True] have occ: "?occ \<noteq> []" by auto
  have "is_word_at a = is_word_at ?occ"
    using is_word_at_append [OF occ, of "drop (length n) a"] by simp
  with same_letters_word_first [OF True] n have wa: "is_word_at a" by simp
  have "is_word_at (rev ?occ) = is_word_at (rev n)"
    using same_letters_word_first [OF same_letters_rev [OF True]] .
  with n have "is_word_at (rev ?occ)" by simp
  with occ have wo: "is_word_at (rev ?occ @ b)"
    using is_word_at_append [of "rev ?occ" b] by simp
  from True wa wo show ?thesis
    unfolding boundary_pattern_matches by simp
qed

lemma parse_plain:
  "list_all (\<lambda>c. \<not> syntax_char c) n \<Longrightarrow>
   parse (k, alts, ts) fs q (n @ rest) =
     parse (k, alts, rev (map chr n) @ ts) fs (if n = [] then q else Atom) rest"
proof (induction n arbitrary: ts q)
  case Nil
  then show ?case by simp
next
  case (Cons c n)
  from Cons.prems have c: "\<not> syntax_char c" and n: "list_all (\<lambda>c. \<not> syntax_char c) n"
    by simp_all
  from c have "parse (k, alts, ts) fs q ((c # n) @ rest) =
                 parse (k, alts, chr c # ts) fs Atom (n @ rest)"
    by (simp add: syntax_char_def one_of_def str_def)
  with Cons.IH [OF n, of "chr c # ts" Atom] show ?case by simp
qed

lemma compile_plain:
  assumes "list_all (\<lambda>c. \<not> syntax_char c) n"
  shows "compile ([92, 98] @ n @ [92, 98]) = Parsed (seqs (WordBoundary # map chr n @ [WordBoundary]))"
proof -
  have "compile ([92, 98] @ n @ [92, 98]) =
          parse (Bracket, [], [WordBoundary]) [] Nothing (n @ [92, 98])"
    by (simp add: compile_def escape_def)
  also have "\<dots> = parse (Bracket, [], rev (map chr n) @ [WordBoundary]) []
                       (if n = [] then Nothing else Atom) [92, 98]"
    by (rule parse_plain [OF assms])
  also have "\<dots> = Parsed (seqs (WordBoundary # map chr n @ [WordBoundary]))"
    by (simp add: escape_def rev_map)
  finally show ?thesis .
qed

lemma language_test_plain:
  assumes "plain_name (trim (name l))"
  shows "language_test e text l = Inr (occurs_as_word e (trim (name l)) text)"
proof -
  let ?n = "trim (name l)"
  define r where "r = fold_case e (seqs (WordBoundary # map chr ?n @ [WordBoundary]))"
  from assms have "list_all (\<lambda>c. \<not> syntax_char c) ?n" by (simp add: plain_name_def)
  then have c: "compile (language_source l) = Parsed (seqs (WordBoundary # map chr ?n @ [WordBoundary]))"
    unfolding language_source_def by (rule compile_plain)
  have "scan True r [] text \<noteq> None \<longleftrightarrow>
          (\<exists>i \<le> length text. matches True r (rev (take i text), drop i text, []) \<noteq> [])"
    using scan_None_iff [of True r "[]" "text"] by simp
  also have "\<dots> \<longleftrightarrow> (\<exists>i \<le> length text.
       same_letters e (take (length ?n) (drop i text)) ?n \<and>
       \<not> is_word_at (rev (take i text)) \<and> \<not> is_word_at (drop (i + length ?n) text))"
    unfolding r_def by (simp only: word_pattern_matches [OF assms] drop_drop add.commute)
  also have "\<dots> \<longleftrightarrow> occurs_as_word e ?n text"
    unfolding occurs_as_word_def by (rule ex_le_upt)
  finally have s: "scan True r [] text \<noteq> None \<longleftrightarrow> occurs_as_word e ?n text" .
  have "RegExp_test \<lparr>pattern = r, ignoreCase = True, global = False\<rparr> text \<longleftrightarrow>
          scan True r [] text \<noteq> None"
    by (simp add: RegExp_test_def RegExp_exec_def split: option.splits)
  with s have "RegExp_test \<lparr>pattern = r, ignoreCase = True, global = False\<rparr> text \<longleftrightarrow>
                 occurs_as_word e ?n text"
    by simp
  then show ?thesis
    unfolding r_def by (simp only: language_test_def RegExp_i_def c parsed.case sum.case)
qed




lemmas language_eval =
  occurs_as_word_def occurs_between_boundaries_def same_letters_def same_letter_def
  variants_def plain_name_def
  syntax_char_def one_of_def trim_def is_word_at_def word_char_def digit_def white_space_def
  to_upper_def to_lower_def str_def

lemma filter_throwing_total:
  "\<forall>x \<in> set xs. f x = Inr (P x) \<Longrightarrow> filter_throwing f xs = Inr (filter P xs)"
  by (induction xs) simp_all







section \<open>State across calls\<close>

text \<open>
  C2. Two runs of the handler on the same request, the second in the world the first
  left: for a document whose text is "John Smith $50,000  per year" the first record
  has the salary and the second has none. \<open>salaryRegex\<close> is global and is run with
  \<open>exec\<close>, so the first run leaves its \<open>lastIndex\<close> at the end of the match and
  the second run searches from there. The reference list of languages is any list on
  which \<open>extractLanguages\<close> does not throw: where it throws, neither run returns a
  record.
\<close>

theorem salary_differs_on_second_run:
  assumes "\<not> isl (extractLanguages
                   (e\<lparr>pdfParse := \<lambda>c. Inr (str ''John Smith $50,000  per year''),
                      people := \<lambda>t. [str ''John Smith'']\<rparr>)
                   (str ''John Smith $50,000  per year''))"
  shows
  "let e' = e\<lparr>pdfParse := \<lambda>c. Inr (str ''John Smith $50,000  per year''),
               people := \<lambda>t. [str ''John Smith'']\<rparr>;
       ev = \<lparr>uploadCv = Some \<lparr>body = Some b, format = Some pdf_type\<rparr>, headers = None\<rparr>;
       run1 = handler e' (w\<lparr>salary_lastIndex := 0\<rparr>) ev;
       run2 = handler e' (snd run1) ev
   in map_option desiredSalary (returned_data (fst run1)) =
        Some (Some \<lparr>amount = Finite 50000, currency = str ''USD''\<rparr>) \<and>
      map_option desiredSalary (returned_data (fst run2)) = Some None \<and>
      returned_data (fst run1) \<noteq> returned_data (fst run2)"
proof -
  define t0 where "t0 = str ''John Smith $50,000  per year''"
  define e' where "e' = e\<lparr>pdfParse := \<lambda>c. Inr t0, people := \<lambda>t. [str ''John Smith'']\<rparr>"
  define ev where "ev = \<lparr>uploadCv = Some \<lparr>body = Some b, format = Some pdf_type\<rparr>, headers = None\<rparr>"
  have name: "extractFullName e' t0 = Inr (str ''John'', Some (str ''Smith''))"
    by (simp add: extractFullName_def e'_def str_def)
  from assms obtain ls where langs: "extractLanguages e' t0 = Inr ls"
    unfolding e'_def t0_def
    by (cases "extractLanguages
                 (e\<lparr>pdfParse := \<lambda>c. Inr (str ''John Smith $50,000  per year''),
                    people := \<lambda>t. [str ''John Smith'']\<rparr>)
                 (str ''John Smith $50,000  per year'')") auto
  have pdf: "pdfParse e' c = Inr t0" for c
    by (simp add: e'_def)
  have s1: "salary_lastIndex v = 0 \<Longrightarrow> extractSalary v t0 =
      (Some \<lparr>amount = Finite 50000, currency = str ''USD''\<rparr>, v\<lparr>salary_lastIndex := 28\<rparr>)" for v
    unfolding t0_def by (rule salary_cv_first_call)
  have s2: "salary_lastIndex v = 28 \<Longrightarrow> extractSalary v t0 = (None, v\<lparr>salary_lastIndex := 0\<rparr>)" for v
    unfolding t0_def by (rule salary_cv_second_call)
  have run: "salary_lastIndex v = 0 \<or> salary_lastIndex v = 28 \<Longrightarrow>
      map_option desiredSalary (returned_data (fst (handler e' v ev))) =
        Some (if salary_lastIndex v = 0 then Some \<lparr>amount = Finite 50000, currency = str ''USD''\<rparr> else None) \<and>
      salary_lastIndex (snd (handler e' v ev)) = (if salary_lastIndex v = 0 then 28 else 0)" for v
    using name langs
    by (auto simp: handler_def declared_type_def try_block_def extractFromPDF_def
        assemble_def returned_data_def ev_def s1 s2 pdf e'_def [symmetric])
  define run1 where "run1 = handler e' (w\<lparr>salary_lastIndex := 0\<rparr>) ev"
  have d1: "map_option desiredSalary (returned_data (fst run1)) =
        Some (Some \<lparr>amount = Finite 50000, currency = str ''USD''\<rparr>)"
    and l1: "salary_lastIndex (snd run1) = 28"
    using run [of "w\<lparr>salary_lastIndex := 0\<rparr>"] by (simp_all add: run1_def)
  have d2: "map_option desiredSalary (returned_data (fst (handler e' (snd run1) ev))) = Some None"
    using run [of "snd run1"] l1 by simp
  have "returned_data (fst run1) \<noteq> returned_data (fst (handler e' (snd run1) ev))"
    using d1 d2 by (metis option.distinct(1) option.inject)
  with d1 d2 show ?thesis
    by (simp add: Let_def e'_def ev_def t0_def run1_def)
qed

theorem salary_differs_on_second_run_witness:
  "\<forall>e w b.
     let e' = e\<lparr>languages := [\<lparr>name = str ''English''\<rparr>, \<lparr>name = str ''Spanish''\<rparr>],
                 pdfParse := \<lambda>c. Inr (str ''John Smith $50,000  per year''),
                 people := \<lambda>t. [str ''John Smith'']\<rparr>;
         ev = \<lparr>uploadCv = Some \<lparr>body = Some b, format = Some pdf_type\<rparr>, headers = None\<rparr>;
         run1 = handler e' (w\<lparr>salary_lastIndex := 0\<rparr>) ev;
         run2 = handler e' (snd run1) ev
     in map_option desiredSalary (returned_data (fst run1)) =
          Some (Some \<lparr>amount = Finite 50000, currency = str ''USD''\<rparr>) \<and>
        map_option desiredSalary (returned_data (fst run2)) = Some None \<and>
        returned_data (fst run1) \<noteq> returned_data (fst run2)"
proof (intro allI)
  fix e :: env and w :: world and b :: ustring
  let ?e = "e\<lparr>languages := [\<lparr>name = str ''English''\<rparr>, \<lparr>name = str ''Spanish''\<rparr>]\<rparr>"
  let ?e' = "?e\<lparr>pdfParse := \<lambda>c. Inr (str ''John Smith $50,000  per year''),
                 people := \<lambda>t. [str ''John Smith'']\<rparr>"
  let ?t = "str ''John Smith $50,000  per year''"
  have "\<forall>l \<in> set (languages ?e'). language_test ?e' ?t l = Inr (occurs_as_word ?e' (trim (name l)) ?t)"
    by (simp add: language_test_plain language_eval)
  then have "filter_throwing (language_test ?e' ?t) (languages ?e') =
               Inr (filter (\<lambda>l. occurs_as_word ?e' (trim (name l)) ?t) (languages ?e'))"
    by (rule filter_throwing_total)
  then have "\<not> isl (extractLanguages ?e' ?t)"
    by (simp add: extractLanguages_def)
  from salary_differs_on_second_run [OF this, of b w]
  show "let e' = e\<lparr>languages := [\<lparr>name = str ''English''\<rparr>, \<lparr>name = str ''Spanish''\<rparr>],
                 pdfParse := \<lambda>c. Inr (str ''John Smith $50,000  per year''),
                 people := \<lambda>t. [str ''John Smith'']\<rparr>;
         ev = \<lparr>uploadCv = Some \<lparr>body = Some b, format = Some pdf_type\<rparr>, headers = None\<rparr>;
         run1 = handler e' (w\<lparr>salary_lastIndex := 0\<rparr>) ev;
         run2 = handler e' (snd run1) ev
     in map_option desiredSalary (returned_data (fst run1)) =
          Some (Some \<lparr>amount = Finite 50000, currency = str ''USD''\<rparr>) \<and>
        map_option desiredSalary (returned_data (fst run2)) = Some None \<and>
        returned_data (fst run1) \<noteq> returned_data (fst run2)" .
qed

section \<open>The telegram extractor\<close>

lemma rev_upt_Suc_map:
  "map f (rev [0..<Suc (Suc m)]) = map (\<lambda>k. f (Suc k)) (rev [0..<Suc m]) @ [f 0]"
proof -
  have "[0..<Suc (Suc m)] = 0 # map Suc [0..<Suc m]"
    by (simp only: map_Suc_upt) (simp add: upt_conv_Cons del: upt_Suc)
  then show ?thesis by (simp add: rev_map comp_def del: upt_Suc)
qed

lemma matches_star_charset:
  "matches ic (Star (CharSet A neg)) (b, a, g) =
     map (\<lambda>k. (rev (take k a) @ b, drop k a, g))
         (rev [0..<Suc (length (takeWhile (\<lambda>c. in_set ic A c \<noteq> neg) a))])"
proof (induction a arbitrary: b)
  case Nil
  then show ?case by simp
next
  case (Cons c cs)
  show ?case
  proof (cases "in_set ic A c \<noteq> neg")
    case False
    then show ?thesis by simp
  next
    case True
    let ?m = "length (takeWhile (\<lambda>c. in_set ic A c \<noteq> neg) cs)"
    have "matches ic (Star (CharSet A neg)) (b, c # cs, g) =
        matches ic (Star (CharSet A neg)) (c # b, cs, g) @ [(b, c # cs, g)]"
      using True by simp
    also have "\<dots> = map (\<lambda>k. (rev (take k cs) @ c # b, drop k cs, g)) (rev [0..<Suc ?m]) @ [(b, c # cs, g)]"
      by (simp only: Cons.IH)
    also have "\<dots> = map (\<lambda>k. (rev (take k (c # cs)) @ b, drop k (c # cs), g)) (rev [0..<Suc (Suc ?m)])"
      by (simp only: rev_upt_Suc_map) simp
    finally show ?thesis using True by simp
  qed
qed

lemma matches_plus_charset:
  "matches ic (Plus (CharSet A neg)) (b, a, g) =
     map (\<lambda>k. (rev (take k a) @ b, drop k a, g))
         (rev [1..<Suc (length (takeWhile (\<lambda>c. in_set ic A c \<noteq> neg) a))])"
proof (cases a)
  case Nil
  then show ?thesis by (simp add: Plus_def)
next
  case (Cons c cs)
  show ?thesis
  proof (cases "in_set ic A c \<noteq> neg")
    case False
    then show ?thesis by (simp add: Plus_def Cons)
  next
    case True
    let ?m = "length (takeWhile (\<lambda>c. in_set ic A c \<noteq> neg) cs)"
    have u: "[1..<Suc (Suc ?m)] = map Suc [0..<Suc ?m]"
      by (simp only: map_Suc_upt One_nat_def)
    have "matches ic (Plus (CharSet A neg)) (b, a, g) = matches ic (Star (CharSet A neg)) (c # b, cs, g)"
      using True by (simp add: Plus_def Cons)
    also have "\<dots> = map (\<lambda>k. (rev (take k cs) @ c # b, drop k cs, g)) (rev [0..<Suc ?m])"
      by (rule matches_star_charset)
    also have "\<dots> = map (\<lambda>k. (rev (take k a) @ b, drop k a, g)) (rev [1..<Suc (Suc ?m)])"
      by (simp only: u rev_map map_map comp_def Cons) simp
    finally show ?thesis using True by (simp add: Cons)
  qed
qed

lemma scan_first:
  assumes "i \<le> length a"
    and "\<forall>j<i. matches ic r (rev (take j a) @ b, drop j a, []) = []"
    and "matches ic r (rev (take i a) @ b, drop i a, []) = (b', a', g) # ys"
  shows "scan ic r b a =
           Some \<lparr>index = length b + i,
                 matched = take (length (drop i a) - length a') (drop i a),
                 groups = g, endIndex = length b'\<rparr>"
  using assms
proof (induction i arbitrary: a b)
  case 0
  from matches_consumes [of "(b', a', g)" ic r "(b, a, [])"] "0.prems"(3)
  obtain s where s: "a = s @ a'" "b' = rev s @ b" by auto
  then have m: "rev (take (length b' - length b) b') = take (length a - length a') a" by simp
  from "0.prems"(3) have "scan ic r b a =
      Some \<lparr>index = length b, matched = rev (take (length b' - length b) b'),
            groups = g, endIndex = length b'\<rparr>"
    by (cases a) simp_all
  then show ?case unfolding m by simp
next
  case (Suc i)
  from Suc.prems(1) obtain c cs where a: "a = c # cs" by (cases a) auto
  from Suc.prems(2) [rule_format, of 0] have z: "matches ic r (b, c # cs, []) = []"
    by (simp add: a)
  have 1: "i \<le> length cs" using Suc.prems(1) a by simp
  have 2: "\<forall>j<i. matches ic r (rev (take j cs) @ c # b, drop j cs, []) = []"
  proof (intro allI impI)
    fix j assume "j < i"
    with Suc.prems(2) [rule_format, of "Suc j"] show "matches ic r (rev (take j cs) @ c # b, drop j cs, []) = []"
      by (simp add: a)
  qed
  have 3: "matches ic r (rev (take i cs) @ c # b, drop i cs, []) = (b', a', g) # ys"
    using Suc.prems(3) by (simp add: a)
  from Suc.IH [OF 1 2 3] z show ?case by (simp add: a)
qed

lemma in_set_word: "in_set True word_char c \<longleftrightarrow> word_char c"
  by (auto simp: in_set_def word_char_def digit_def to_upper_def to_lower_def)

lemma in_set_word_or_dot: "in_set True (\<lambda>c. word_char c \<or> c = 46) c \<longleftrightarrow> word_char c \<or> c = 46"
  by (auto simp: in_set_def word_char_def digit_def to_upper_def to_lower_def)

lemma in_set_white_space: "in_set True white_space c \<longleftrightarrow> white_space c"
  by (auto simp: in_set_def white_space_def to_upper_def to_lower_def)

lemma in_set_at: "in_set True (\<lambda>x. x = 64) c \<longleftrightarrow> c = 64"
  by (auto simp: in_set_def to_upper_def to_lower_def)

lemma in_set_dot: "in_set True (\<lambda>x. x = 46) c \<longleftrightarrow> c = 46"
  by (auto simp: in_set_def to_upper_def to_lower_def)

lemma in_set_slash: "in_set True (\<lambda>x. x = 47) c \<longleftrightarrow> c = 47"
  by (auto simp: in_set_def to_upper_def to_lower_def)

lemma concat_map_if:
  "concat (map (\<lambda>y. if Q y then [y] else []) ys) = filter Q ys"
  by (induction ys) auto

lemma dot_word_matches:
  "matches True (Seq (CharSet (\<lambda>x. x = 46) False) (CharSet word_char False)) (b, a, g) = [] \<longleftrightarrow>
     \<not> followed_by_dot_word a"
proof (cases a)
  case Nil
  then show ?thesis by (simp add: followed_by_dot_word_def)
next
  case (Cons d ds)
  then show ?thesis
    by (cases ds) (auto simp: followed_by_dot_word_def in_set_dot in_set_word)
qed

lemma handle_matches:
  "matches True (pattern telegramHandleRegex) (b, a, g) =
     (if preceded_by_word_or_dot (rev b) then []
      else case a of
             [] \<Rightarrow> []
           | c # cs \<Rightarrow>
               if c = 64 then
                 map (\<lambda>k. (rev (take k cs) @ 64 # b, drop k cs, g))
                     (filter (\<lambda>k. \<not> followed_by_dot_word (drop k cs))
                             (rev [1..<Suc (length (takeWhile word_char cs))]))
               else [])"
proof -
  let ?D = "Seq (CharSet (\<lambda>x. x = 46) False) (CharSet word_char False)"
  let ?R3 = "Seq (NotAhead ?D) Empty"
  let ?R2 = "Seq (Plus (CharSet word_char False)) ?R3"
  let ?R1 = "Seq (CharSet (\<lambda>x. x = 64) False) ?R2"
  have p: "pattern telegramHandleRegex = Seq (NotBehind (\<lambda>c. word_char c \<or> c = 46)) ?R1"
    by (simp add: telegramHandleRegex_def chr_def cls_def)
  have "matches True ?R3 y = (if \<not> followed_by_dot_word (fst (snd y)) then [y] else [])" for y
    using dot_word_matches [of "fst y" "fst (snd y)" "snd (snd y)"] by simp
  then have r3: "matches True ?R3 = (\<lambda>y. if \<not> followed_by_dot_word (fst (snd y)) then [y] else [])"
    by (intro ext)
  have r2: "matches True ?R2 (b', cs, g) =
      map (\<lambda>k. (rev (take k cs) @ b', drop k cs, g))
          (filter (\<lambda>k. \<not> followed_by_dot_word (drop k cs))
                  (rev [1..<Suc (length (takeWhile word_char cs))]))" for b' cs
  proof -
    have "matches True ?R2 (b', cs, g) =
        concat (map (\<lambda>y. if \<not> followed_by_dot_word (fst (snd y)) then [y] else [])
                    (matches True (Plus (CharSet word_char False)) (b', cs, g)))"
      by (simp only: matches.simps(4) r3)
    also have "\<dots> = filter (\<lambda>y. \<not> followed_by_dot_word (fst (snd y)))
                    (matches True (Plus (CharSet word_char False)) (b', cs, g))"
      by (rule concat_map_if)
    finally show ?thesis
      by (simp add: matches_plus_charset in_set_word filter_map comp_def)
  qed
  have r1: "matches True ?R1 (b, a, g) =
      (case a of [] \<Rightarrow> [] | c # cs \<Rightarrow> if c = 64 then matches True ?R2 (c # b, cs, g) else [])"
    by (cases a) (simp_all add: in_set_at)
  have nb: "matches True (Seq (NotBehind (\<lambda>c. word_char c \<or> c = 46)) ?R1) (b, a, g) =
      (if preceded_by_word_or_dot (rev b) then [] else matches True ?R1 (b, a, g))"
    by (cases b) (simp_all add: preceded_by_word_or_dot_def in_set_word_or_dot)
  show ?thesis
    unfolding p nb r1 by (simp only: r2 split: list.splits) simp
qed

lemma starts_with_length: "starts_with p a \<Longrightarrow> length p \<le> length a"
  unfolding starts_with_def by (drule same_ignoring_case_length) simp

lemma starts_with_append:
  "starts_with (p @ q) a \<longleftrightarrow> starts_with p a \<and> starts_with q (drop (length p) a)"
proof (cases "length p \<le> length a")
  case False
  then have "\<not> starts_with p a" "\<not> starts_with (p @ q) a"
    using starts_with_length [of p a] starts_with_length [of "p @ q" a] by auto
  then show ?thesis by simp
next
  case True
  have "take (length p + length q) a = take (length p) a @ take (length q) (drop (length p) a)"
    by (simp add: take_add)
  with True show ?thesis
    by (simp add: starts_with_def same_ignoring_case_def)
qed

lemma concat_map_Empty: "concat (map (matches ic Empty) ys) = ys"
  by (induction ys) auto

lemma concat_map_concat: "concat (map f (concat xss)) = concat (map (\<lambda>xs. concat (map f xs)) xss)"
  by (induction xss) auto

lemma state_compose:
  "(rev (take k (drop n a)) @ rev (take n a) @ b, drop k (drop n a), g) =
   (rev (take (n + k) a) @ b, drop (n + k) a, g)"
proof -
  have "take (n + k) a = take n a @ take k (drop n a)" by (rule take_add)
  moreover have "drop k (drop n a) = drop (n + k) a" by (simp add: add.commute)
  ultimately show ?thesis by simp
qed

lemma choices_lit: "literal_choices (lit p) [p]"
  by (simp add: literal_choices_def matches_lit starts_with_def)

lemma choices_chr: "literal_choices (chr c) [[c]]"
proof -
  have "matches True (chr c) x = matches True (lit [c]) x" for x
    by (simp add: lit_def concat_map_Empty)
  with choices_lit [of "[c]"] show ?thesis by (simp add: literal_choices_def)
qed

lemma choices_Empty: "literal_choices Empty [[]]"
  by (simp add: literal_choices_def starts_with_def same_ignoring_case_def)

lemma choices_Alt:
  "literal_choices r ps \<Longrightarrow> literal_choices s qs \<Longrightarrow> literal_choices (Alt r s) (ps @ qs)"
  by (simp add: literal_choices_def)

lemma concat_map_concat_if:
  "concat (map f (concat (map (\<lambda>p. if c p then [h p] else []) ps))) =
   concat (map (\<lambda>p. if c p then f (h p) else []) ps)"
  by (induction ps) auto

lemma choices_Seq:
  assumes "literal_choices r ps" and "literal_choices s qs"
  shows "literal_choices (Seq r s) (concat (map (\<lambda>p. map (\<lambda>q. p @ q) qs) ps))"
proof -
  have "matches True (Seq r s) (b, a, g) =
      concat (map (\<lambda>pq. if starts_with pq a
                         then [(rev (take (length pq) a) @ b, drop (length pq) a, g)] else [])
                  (concat (map (\<lambda>p. map (\<lambda>q. p @ q) qs) ps)))" for b a g
  proof -
    let ?st = "\<lambda>n. (rev (take n a) @ b, drop n a, g)"
    have inner: "(if starts_with p a then matches True s (?st (length p)) else []) =
        concat (map (\<lambda>pq. if starts_with pq a then [?st (length pq)] else []) (map (\<lambda>q. p @ q) qs))" for p
    proof (cases "starts_with p a")
      case False
      then show ?thesis by (simp add: starts_with_append comp_def)
    next
      case True
      have "matches True s (?st (length p)) =
          concat (map (\<lambda>q. if starts_with q (drop (length p) a)
                            then [(rev (take (length q) (drop (length p) a)) @ rev (take (length p) a) @ b,
                                   drop (length q) (drop (length p) a), g)] else []) qs)"
        using assms(2) by (simp add: literal_choices_def)
      also have "\<dots> = concat (map (\<lambda>q. if starts_with (p @ q) a then [?st (length (p @ q))] else []) qs)"
        using True by (simp only: state_compose starts_with_append length_append) simp
      finally show ?thesis using True by (simp add: comp_def)
    qed
    have "matches True (Seq r s) (b, a, g) =
        concat (map (\<lambda>p. if starts_with p a then matches True s (?st (length p)) else []) ps)"
      using assms(1) by (simp add: literal_choices_def concat_map_concat_if)
    also have "\<dots> = concat (map (\<lambda>p. concat (map (\<lambda>pq. if starts_with pq a then [?st (length pq)] else [])
                                               (map (\<lambda>q. p @ q) qs))) ps)"
      by (simp only: inner)
    also have "\<dots> = concat (map (\<lambda>pq. if starts_with pq a then [?st (length pq)] else [])
                              (concat (map (\<lambda>p. map (\<lambda>q. p @ q) qs) ps)))"
      by (simp only: concat_map_concat map_map comp_def)
    finally show ?thesis .
  qed
  then show ?thesis unfolding literal_choices_def by blast
qed

lemma choices_Opt:
  assumes "literal_choices r ps" and "[] \<notin> set ps"
  shows "literal_choices (Opt r) (ps @ [[]])"
proof -
  have "matches True (Opt r) (b, a, g) =
      concat (map (\<lambda>p. if starts_with p a
                        then [(rev (take (length p) a) @ b, drop (length p) a, g)] else []) (ps @ [[]]))"
    for b a g
  proof -
    have "y \<in> set (matches True r (b, a, g)) \<Longrightarrow> length (fst (snd y)) < length a" for y
    proof -
      assume "y \<in> set (matches True r (b, a, g))"
      with assms(1) obtain p where p: "p \<in> set ps" "starts_with p a"
        "y = (rev (take (length p) a) @ b, drop (length p) a, g)"
        by (auto simp: literal_choices_def split: if_splits)
      from p(1) assms(2) have "p \<noteq> []" by auto
      then have "0 < length p" by simp
      moreover have "length p \<le> length a"
        using p(2) by (rule starts_with_length)
      ultimately have "length a - length p < length a" by arith
      then show ?thesis using p(3) by simp
    qed
    then have "filter (\<lambda>y. length (fst (snd y)) < length a) (matches True r (b, a, g)) =
        matches True r (b, a, g)"
      by (simp add: filter_id_conv)
    then show ?thesis
      using assms(1)
      by (simp add: literal_choices_def starts_with_def same_ignoring_case_def)
  qed
  then show ?thesis unfolding literal_choices_def by blast
qed

lemma choices_then:
  assumes "literal_choices r ps"
  shows "matches True (Seq r t) (b, a, g) =
     concat (map (\<lambda>p. if starts_with p a
                       then matches True t (rev (take (length p) a) @ b, drop (length p) a, g)
                       else []) ps)"
  using assms by (simp add: literal_choices_def concat_map_concat_if)

lemma seq_assoc: "matches ic (Seq r (Seq s t)) x = matches ic (Seq (Seq r s) t) x"
proof -
  have "matches ic (Seq s t) = (\<lambda>z. concat (map (matches ic t) (matches ic s z)))"
    by (rule ext) simp
  then show ?thesis by (simp add: concat_map_concat comp_def)
qed

lemma seq_cong:
  assumes "\<And>y. matches ic s y = matches ic s' y"
  shows "matches ic (Seq r s) x = matches ic (Seq r s') x"
proof -
  from assms have "matches ic s = matches ic s'" by (intro ext)
  then show ?thesis by simp
qed

lemma url_prefix_choices:
  "literal_choices
     (Seq https_opt (Seq (Alt (lit (str ''t.me'')) (lit (str ''telegram.me''))) (chr 47)))
     url_prefixes"
proof -
  have s: "literal_choices (Seq (lit (str ''http'')) (Seq (Opt (chr 115)) (Seq (lit (str ''://'')) Empty)))
      [str ''https://'', str ''http://'']"
    using choices_Seq [OF choices_lit [of "str ''http''"]
        choices_Seq [OF choices_Opt [OF choices_chr [of 115]]
          choices_Seq [OF choices_lit [of "str ''://''"] choices_Empty]]]
    by (simp add: str_def)
  have o: "literal_choices https_opt [str ''https://'', str ''http://'', []]"
    using choices_Opt [OF s] by (simp add: https_opt_def str_def)
  have h: "literal_choices (Seq (Alt (lit (str ''t.me'')) (lit (str ''telegram.me''))) (chr 47))
      [str ''t.me/'', str ''telegram.me/'']"
    using choices_Seq [OF choices_Alt [OF choices_lit [of "str ''t.me''"] choices_lit [of "str ''telegram.me''"]]
        choices_chr [of 47]]
    by (simp add: str_def)
  from choices_Seq [OF o h] show ?thesis
    by (simp add: url_prefixes_def str_def)
qed

lemma url_matches:
  "matches True (pattern telegramUrlRegex) (b, a, g) =
     concat (map (\<lambda>p. if starts_with p a
                       then map (\<lambda>k. (rev (take (length p + k) a) @ b, drop (length p + k) a, g))
                                (rev [1..<Suc (length (takeWhile (\<lambda>c. \<not> white_space c) (drop (length p) a)))])
                       else []) url_prefixes)"
proof -
  let ?T = "Seq (Plus (CharSet white_space True)) Empty"
  have t: "matches True ?T (rev (take n a) @ b, drop n a, g) =
      map (\<lambda>k. (rev (take (n + k) a) @ b, drop (n + k) a, g))
          (rev [1..<Suc (length (takeWhile (\<lambda>c. \<not> white_space c) (drop n a)))])" for n
  proof -
    have ns: "(\<lambda>c. in_set True white_space c \<noteq> True) = (\<lambda>c. \<not> white_space c)"
      by (simp add: in_set_white_space)
    have "matches True ?T (b', a', g) =
        map (\<lambda>k. (rev (take k a') @ b', drop k a', g))
            (rev [1..<Suc (length (takeWhile (\<lambda>c. \<not> white_space c) a'))])" for b' a'
    proof -
      have "matches True ?T (b', a', g) = matches True (Plus (CharSet white_space True)) (b', a', g)"
        by (simp only: matches.simps(4) concat_map_Empty)
      then show ?thesis
        by (simp only: matches_plus_charset ns)
    qed
    from this [of "rev (take n a) @ b" "drop n a"] show ?thesis
      by (simp only: state_compose)
  qed
  have "pattern telegramUrlRegex =
      Seq https_opt (Seq (Alt (lit (str ''t.me'')) (lit (str ''telegram.me''))) (Seq (chr 47) ?T))"
    by (simp add: telegramUrlRegex_def)
  then have "matches True (pattern telegramUrlRegex) (b, a, g) =
      matches True (Seq https_opt (Seq (Seq (Alt (lit (str ''t.me'')) (lit (str ''telegram.me''))) (chr 47)) ?T))
        (b, a, g)"
    by (simp only: seq_cong [OF seq_assoc])
  also have "\<dots> =
      matches True (Seq (Seq https_opt (Seq (Alt (lit (str ''t.me'')) (lit (str ''telegram.me''))) (chr 47))) ?T)
        (b, a, g)"
    by (rule seq_assoc)
  also have "\<dots> = concat (map (\<lambda>p. if starts_with p a
                       then matches True ?T (rev (take (length p) a) @ b, drop (length p) a, g)
                       else []) url_prefixes)"
    by (rule choices_then [OF url_prefix_choices])
  finally show ?thesis by (simp only: t)
qed

lemma filter_rev_upt_first:
  "filter Q (rev [l..<u]) = k # ks \<Longrightarrow> Q k \<and> l \<le> k \<and> k < u \<and> (\<forall>m. k < m \<and> m < u \<longrightarrow> \<not> Q m)"
proof (induction u)
  case 0
  then show ?case by simp
next
  case (Suc u)
  show ?case
  proof (cases "l \<le> u")
    case False
    with Suc.prems show ?thesis by simp
  next
    case True
    show ?thesis
    proof (cases "Q u")
      case q: True
      with True Suc.prems have "k = u" by simp
      with q True show ?thesis by auto
    next
      case q: False
      with True Suc.prems have "filter Q (rev [l..<u]) = k # ks" by simp
      from Suc.IH [OF this] q show ?thesis
        by (auto simp: less_Suc_eq)
    qed
  qed
qed

lemma takeWhile_length_iff:
  "n \<le> length (takeWhile P xs) \<longleftrightarrow> n \<le> length xs \<and> list_all P (take n xs)"
proof (induction xs arbitrary: n)
  case Nil
  then show ?case by simp
next
  case (Cons x xs)
  then show ?case by (cases n) auto
qed

lemma first_of_concat:
  "concat (map f ps) = y # ys \<Longrightarrow> \<exists>p \<in> set ps. \<exists>zs. f p = y # zs"
proof (induction ps)
  case Nil
  then show ?case by simp
next
  case (Cons p ps)
  then show ?case by (cases "f p") auto
qed

lemma nonspace_run:
  "1 \<le> length (takeWhile (\<lambda>c. \<not> white_space c) x) \<longleftrightarrow> nonspace_at x"
  by (cases x) (simp_all add: nonspace_at_def)

lemma concat_map_nonempty: "concat (map f ps) \<noteq> [] \<longleftrightarrow> (\<exists>p \<in> set ps. f p \<noteq> [])"
  by (induction ps) auto

lemma nonspace_run_Nil:
  "takeWhile (\<lambda>c. \<not> white_space c) x \<noteq> [] \<longleftrightarrow> nonspace_at x"
  by (cases x) (simp_all add: nonspace_at_def)

lemma url_found_iff:
  "matches True (pattern telegramUrlRegex) (b, a, g) \<noteq> [] \<longleftrightarrow> url_starts a"
proof -
  let ?F = "\<lambda>p. if starts_with p a
                 then map (\<lambda>k. (rev (take (length p + k) a) @ b, drop (length p + k) a, g))
                          (rev [1..<Suc (length (takeWhile (\<lambda>c. \<not> white_space c) (drop (length p) a)))])
                 else []"
  have F: "?F p \<noteq> [] \<longleftrightarrow> starts_with p a \<and> nonspace_at (drop (length p) a)" for p
    by (simp add: nonspace_run_Nil del: upt_Suc)
  have "matches True (pattern telegramUrlRegex) (b, a, g) \<noteq> [] \<longleftrightarrow> (\<exists>p \<in> set url_prefixes. ?F p \<noteq> [])"
    unfolding url_matches by (rule concat_map_nonempty)
  also have "\<dots> \<longleftrightarrow> url_starts a"
    unfolding url_starts_def list_ex_iff by (simp only: F)
  finally show ?thesis .
qed

lemma url_first:
  assumes "matches True (pattern telegramUrlRegex) (b, a, g) = (b', a', g') # ys"
  shows "telegram_url (take (length a - length a') a) \<and> \<not> nonspace_at a' \<and>
         a = take (length a - length a') a @ a'"
proof -
  let ?ns = "\<lambda>c. \<not> white_space c"
  define F where "F = (\<lambda>p. if starts_with p a
                 then map (\<lambda>k. (rev (take (length p + k) a) @ b, drop (length p + k) a, g))
                          (rev [1..<Suc (length (takeWhile ?ns (drop (length p) a)))])
                 else [])"
  have "concat (map F url_prefixes) = (b', a', g') # ys"
    using assms unfolding url_matches F_def .
  then have "\<exists>p \<in> set url_prefixes. \<exists>zs. F p = (b', a', g') # zs"
    by (rule first_of_concat)
  then obtain p zs where p: "p \<in> set url_prefixes" and "F p = (b', a', g') # zs"
    by blast
  then have f: "(if starts_with p a
                 then map (\<lambda>k. (rev (take (length p + k) a) @ b, drop (length p + k) a, g))
                          (rev [1..<Suc (length (takeWhile ?ns (drop (length p) a)))])
                 else []) = (b', a', g') # zs"
    by (simp only: F_def)
  let ?x = "drop (length p) a"
  let ?m = "length (takeWhile ?ns ?x)"
  from f have sw: "starts_with p a" by (auto split: if_splits)
  with f have m1: "1 \<le> ?m" by (cases "?m") (auto simp del: upt_Suc)
  then have "rev [1..<Suc ?m] = ?m # rev [1..<?m]" by simp
  with f sw have a': "a' = drop (length p + ?m) a" by simp
  have pl: "length p \<le> length a" using sw by (rule starts_with_length)
  have ml: "?m \<le> length ?x" by (rule length_takeWhile_le)
  then have len: "length a - length a' = length p + ?m" using pl by (simp add: a')
  let ?u = "take (length p + ?m) a"
  have "take (length p) ?u = take (length p) a" by simp
  then have 1: "starts_with p ?u" using sw by (simp add: starts_with_def)
  have "length ?u = length p + ?m" using pl ml by simp
  with m1 have 2: "length p < length ?u" by linarith
  have "drop (length p) ?u = take ?m ?x" by (simp add: drop_take)
  also have "\<dots> = takeWhile ?ns ?x" by (rule takeWhile_eq_take [symmetric])
  finally have "drop (length p) ?u = takeWhile ?ns ?x" .
  moreover have "list_all ?ns (takeWhile ?ns ?x)"
    unfolding list_all_iff using set_takeWhileD by fast
  ultimately have 3: "list_all ?ns (drop (length p) ?u)" by simp
  have "dropWhile ?ns ?x = drop ?m ?x" by (rule dropWhile_eq_drop)
  also have "\<dots> = a'" unfolding a' by (simp add: add.commute)
  finally have "a' = dropWhile ?ns ?x" by simp
  then have 4: "\<not> nonspace_at a'"
    by (cases "dropWhile ?ns ?x") (use hd_dropWhile [of ?ns ?x] in \<open>auto simp: nonspace_at_def\<close>)
  from 1 2 3 p have "telegram_url ?u"
    unfolding telegram_url_def list_ex_iff by blast
  with 4 len show ?thesis by (simp add: a')
qed

lemma handle_match_iff:
  "handle_match pre a n \<longleftrightarrow>
     (\<exists>cs. a = 64 # cs \<and> \<not> preceded_by_word_or_dot pre \<and>
        n \<in> set (filter (\<lambda>k. \<not> followed_by_dot_word (drop k cs))
                        (rev [1..<Suc (length (takeWhile word_char cs))])))"
proof (cases a)
  case Nil
  then show ?thesis by (simp add: handle_match_def)
next
  case (Cons c cs)
  have "n \<le> length (takeWhile word_char cs) \<longleftrightarrow> n \<le> length cs \<and> list_all word_char (take n cs)"
    by (rule takeWhile_length_iff)
  then show ?thesis
    unfolding handle_match_def Cons
    by (auto simp: less_Suc_eq_le simp del: upt_Suc)
qed

lemma handle_found_iff:
  "matches True (pattern telegramHandleRegex) (rev pre, a, g) \<noteq> [] \<longleftrightarrow> (\<exists>n. handle_match pre a n)"
proof -
  have "xs \<noteq> [] \<longleftrightarrow> (\<exists>n. n \<in> set xs)" for xs :: "nat list"
    by (cases xs) auto
  then show ?thesis
    unfolding handle_matches handle_match_iff
    by (cases a) (simp_all del: upt_Suc)
qed

lemma handle_first:
  assumes "matches True (pattern telegramHandleRegex) (rev pre, a, g) = (b', a', g') # ys"
  shows "\<exists>n. handle_match pre a n \<and> (\<forall>m>n. \<not> handle_match pre a m) \<and> a' = drop (Suc n) a"
proof -
  from assms obtain cs where a: "a = 64 # cs" and nb: "\<not> preceded_by_word_or_dot pre"
    unfolding handle_matches by (cases a) (auto split: if_splits)
  let ?Q = "\<lambda>k. \<not> followed_by_dot_word (drop k cs)"
  let ?M = "length (takeWhile word_char cs)"
  from assms a nb obtain k ks where f: "filter ?Q (rev [1..<Suc ?M]) = k # ks"
    and a': "a' = drop k cs"
    unfolding handle_matches by (cases "filter ?Q (rev [1..<Suc ?M])") auto
  from filter_rev_upt_first [OF f]
  have k: "?Q k" "1 \<le> k" "k < Suc ?M" and mx: "\<forall>m. k < m \<and> m < Suc ?M \<longrightarrow> \<not> ?Q m"
    by blast+
  have "handle_match pre a k"
    unfolding handle_match_iff using a nb f by (intro exI [of _ cs]) simp
  moreover have "\<not> handle_match pre a m" if "k < m" for m
    unfolding handle_match_iff using a mx that by (auto simp del: upt_Suc)
  ultimately show ?thesis using a a' by auto
qed

lemma match0_first:
  assumes "i \<le> length text"
    and "\<forall>j<i. matches (ignoreCase R) (pattern R) (rev (take j text), drop j text, []) = []"
    and "matches (ignoreCase R) (pattern R) (rev (take i text), drop i text, []) = (b', a', g) # ys"
  shows "String_match0 text R = Some (take (length (drop i text) - length a') (drop i text))"
  using scan_first [of i "text" "ignoreCase R" "pattern R" "[]" b' a' g ys] assms
  by (simp add: String_match0_def)

lemma match0_None:
  assumes "\<forall>i \<le> length text. matches (ignoreCase R) (pattern R) (rev (take i text), drop i text, []) = []"
  shows "String_match0 text R = None"
  using scan_None_iff [of "ignoreCase R" "pattern R" "[]" "text"] assms
  by (simp add: String_match0_def)

lemma url_flag: "ignoreCase telegramUrlRegex = True"
  by (simp add: telegramUrlRegex_def)

lemma handle_flag: "ignoreCase telegramHandleRegex = True"
  by (simp add: telegramHandleRegex_def)

lemma url_none_iff:
  "matches True (pattern telegramUrlRegex) (b, a, g) = [] \<longleftrightarrow> \<not> url_starts a"
  using url_found_iff [of b a g] by blast

lemma handle_none_iff:
  "matches True (pattern telegramHandleRegex) (rev pre, a, g) = [] \<longleftrightarrow> (\<forall>n. \<not> handle_match pre a n)"
  using handle_found_iff [of pre a g] by blast

lemma no_url_None:
  assumes "\<forall>i \<le> length text. \<not> url_starts (drop i text)"
  shows "String_match0 text telegramUrlRegex = None"
proof (rule match0_None)
  show "\<forall>i \<le> length text. matches (ignoreCase telegramUrlRegex) (pattern telegramUrlRegex)
          (rev (take i text), drop i text, []) = []"
    using assms by (simp add: url_flag url_none_iff)
qed

lemma first_url:
  assumes "i \<le> length text" and "url_starts (drop i text)"
    and "\<forall>j<i. \<not> url_starts (drop j text)"
  shows "\<exists>u. String_match0 text telegramUrlRegex = Some u \<and> telegram_url u \<and>
             take (length u) (drop i text) = u \<and> \<not> nonspace_at (drop (i + length u) text)"
proof -
  let ?a = "drop i text"
  from assms(2) url_found_iff [of "rev (take i text)" ?a "[]"]
  obtain b' a' g' ys where m: "matches True (pattern telegramUrlRegex) (rev (take i text), ?a, []) = (b', a', g') # ys"
    by (cases "matches True (pattern telegramUrlRegex) (rev (take i text), ?a, [])") auto
  let ?u = "take (length ?a - length a') ?a"
  from url_first [OF m] have u: "telegram_url ?u" "\<not> nonspace_at a'" "?a = ?u @ a'"
    by simp_all
  have before: "\<forall>j<i. matches (ignoreCase telegramUrlRegex) (pattern telegramUrlRegex)
                  (rev (take j text), drop j text, []) = []"
    using assms(3) by (simp add: url_flag url_none_iff)
  from m have m': "matches (ignoreCase telegramUrlRegex) (pattern telegramUrlRegex)
      (rev (take i text), ?a, []) = (b', a', g') # ys"
    by (simp add: url_flag)
  have r: "String_match0 text telegramUrlRegex = Some ?u"
    by (rule match0_first [OF assms(1) before m'])
  have "take (length ?u) ?a = ?u" by simp
  moreover have "drop (i + length ?u) text = drop (length ?u) ?a" by (simp add: add.commute)
  then have "drop (i + length ?u) text = a'" using u(3) by (metis append_eq_conv_conj)
  ultimately show ?thesis using r u(1,2) by (intro exI [of _ ?u]) simp
qed

lemma no_handle_None:
  assumes "\<forall>i m. \<not> handle_match (take i text) (drop i text) m"
  shows "String_match0 text telegramHandleRegex = None"
proof (rule match0_None)
  show "\<forall>i \<le> length text. matches (ignoreCase telegramHandleRegex) (pattern telegramHandleRegex)
          (rev (take i text), drop i text, []) = []"
    using assms by (simp add: handle_flag handle_none_iff)
qed

lemma first_handle:
  assumes "handle_match (take i text) (drop i text) n"
    and "\<forall>j<i. \<forall>m. \<not> handle_match (take j text) (drop j text) m"
    and "\<forall>m>n. \<not> handle_match (take i text) (drop i text) m"
  shows "String_match0 text telegramHandleRegex = Some (take (Suc n) (drop i text))"
proof -
  let ?a = "drop i text"
  from assms(1) have n: "n < length ?a" by (simp add: handle_match_def)
  then have i: "i \<le> length text" by simp
  from assms(1) handle_found_iff [of "take i text" ?a "[]"]
  obtain b' a' g' ys where m: "matches True (pattern telegramHandleRegex) (rev (take i text), ?a, []) = (b', a', g') # ys"
    by (cases "matches True (pattern telegramHandleRegex) (rev (take i text), ?a, [])") auto
  from handle_first [OF m] obtain k where k: "handle_match (take i text) ?a k"
    "\<forall>m>k. \<not> handle_match (take i text) ?a m" "a' = drop (Suc k) ?a"
    by blast
  from k(1,2) assms(1,3) have "k = n" by (meson linorder_neqE_nat)
  with k(3) n have len: "length ?a - length a' = Suc n" by simp
  have before: "\<forall>j<i. matches (ignoreCase telegramHandleRegex) (pattern telegramHandleRegex)
                  (rev (take j text), drop j text, []) = []"
    using assms(2) by (simp add: handle_flag handle_none_iff)
  from m have m': "matches (ignoreCase telegramHandleRegex) (pattern telegramHandleRegex)
      (rev (take i text), ?a, []) = (b', a', g') # ys"
    by (simp add: handle_flag)
  from match0_first [OF i before m'] len show ?thesis by simp
qed

lemma handle_match_start:
  assumes "handle_match (take i text) (drop i text) m"
  shows "handle_start text i" and "m \<le> token_length text i"
proof -
  let ?a = "drop i text"
  from assms have m: "1 \<le> m" "m < length ?a" and at: "take 1 ?a = [64]"
    and w: "list_all word_char (take m (drop 1 ?a))"
    and np: "\<not> preceded_by_word_or_dot (take i text)"
    by (simp_all add: handle_match_def)
  from m have il: "i < length text" by simp
  with at have c: "text ! i = 64"
    by (metis Cons_nth_drop_Suc list.inject take_Suc_Cons One_nat_def)
  have d: "drop 1 ?a = drop (Suc i) text" by simp
  from m have "m \<le> length (drop (Suc i) text)" by simp
  with w d have le: "m \<le> length (takeWhile word_char (drop (Suc i) text))"
    using takeWhile_length_iff [of m word_char "drop (Suc i) text"] by simp
  then show "m \<le> token_length text i" by (simp add: token_length_def)
  from le m(1) have "takeWhile word_char (drop (Suc i) text) \<noteq> []" by auto
  then have "is_word_at (drop (Suc i) text)"
    by (cases "drop (Suc i) text") (auto simp: is_word_at_def split: if_splits)
  with il c np show "handle_start text i" by (simp add: handle_start_def)
qed

lemma handle_start_run:
  assumes "handle_start text i"
  shows "1 \<le> token_length text i" and "token_length text i < length (drop i text)"
    and "take 1 (drop i text) = [64]"
    and "m \<le> token_length text i \<Longrightarrow> list_all word_char (take m (drop 1 (drop i text)))"
    and "token_length text i < m \<Longrightarrow> \<not> handle_match (take i text) (drop i text) m"
proof -
  from assms have il: "i < length text" and c: "text ! i = 64"
    and w: "is_word_at (drop (Suc i) text)"
    by (simp_all add: handle_start_def)
  from w show "1 \<le> token_length text i"
    by (cases "drop (Suc i) text") (auto simp: is_word_at_def token_length_def)
  have "length (takeWhile word_char (drop (Suc i) text)) \<le> length (drop (Suc i) text)"
    by (rule length_takeWhile_le)
  with il show "token_length text i < length (drop i text)"
    by (simp add: token_length_def)
  from il c show "take 1 (drop i text) = [64]"
    by (simp add: Cons_nth_drop_Suc [symmetric])
  show "list_all word_char (take m (drop 1 (drop i text)))" if "m \<le> token_length text i"
    using that takeWhile_length_iff [of m word_char "drop (Suc i) text"]
    by (simp add: token_length_def)
  show "\<not> handle_match (take i text) (drop i text) m" if "token_length text i < m"
    using that handle_match_start(2) [of i "text" m] by auto
qed

lemma handle_kept:
  assumes "handle_at text i"
  shows "handle_match (take i text) (drop i text) (token_length text i)"
  using assms handle_start_run(1,2,3) [of _ i] handle_start_run(4) [of _ i "token_length text i"]
  by (simp add: handle_at_def handle_match_def handle_start_def add.commute)

lemma word_not_followed: "word_char c \<Longrightarrow> \<not> followed_by_dot_word (c # r)"
  by (auto simp: followed_by_dot_word_def word_char_def digit_def split: list.splits)

lemma handle_cut:
  assumes "handle_start text i" and "\<not> handle_at text i" and "2 \<le> token_length text i"
  shows "handle_match (take i text) (drop i text) (token_length text i - 1)"
    and "\<not> handle_match (take i text) (drop i text) (token_length text i)"
proof -
  let ?a = "drop i text"
  from assms(3) obtain k where k: "token_length text i = Suc k" "1 \<le> k"
    by (cases "token_length text i") auto
  from assms(1,2) have f: "followed_by_dot_word (drop (Suc (Suc k)) ?a)"
    by (simp add: handle_at_def add.commute k)
  then show "\<not> handle_match (take i text) ?a (token_length text i)"
    by (simp add: handle_match_def k)
  from handle_start_run(2,3) [OF assms(1)] have n: "Suc k < length ?a" and at: "take 1 ?a = [64]"
    by (simp_all add: k)
  from handle_start_run(4) [OF assms(1), of "Suc k"]
  have w: "list_all word_char (take (Suc k) (drop 1 ?a))" by (simp add: k)
  from handle_start_run(4) [OF assms(1), of k]
  have w': "list_all word_char (take k (drop 1 ?a))" by (simp add: k)
  from n have "k < length (take (Suc k) (drop 1 ?a))" by simp
  with w have "word_char (take (Suc k) (drop 1 ?a) ! k)"
    unfolding list_all_length by blast
  with n have "word_char (?a ! Suc k)" by simp
  moreover from n have "drop (Suc k) ?a = ?a ! Suc k # drop (Suc (Suc k)) ?a"
    by (rule Cons_nth_drop_Suc [symmetric])
  ultimately have nf: "\<not> followed_by_dot_word (drop (Suc k) ?a)"
    by (simp add: word_not_followed)
  from assms(1) k n at w' nf show "handle_match (take i text) ?a (token_length text i - 1)"
    by (simp add: handle_match_def handle_start_def)
qed

text \<open>
  C7. The telegram extractor has two stages. Where a telegram URL starts in the text,
  it returns the URL that starts at the first such position: one of the URL prefixes,
  up to case, and the whole run of non-space characters after it. Where no URL starts,
  it looks at the first \<open>@\<close> that no word character or dot precedes and a word
  character follows. If no dot and word character follow the token after that \<open>@\<close>,
  the result is the handle: the \<open>@\<close> and the token. If they do, and the token has
  two characters or more, the result is not null and not a later handle: it is the
  \<open>@\<close> and the token without its last character. The lookahead \<open>(?!\.\w)\<close> is
  tried again after \<open>\w+\<close> has given one character back, and there it sees a word
  character, not a dot. A text with no such \<open>@\<close>, like "email john@doe.com", yields
  null.
\<close>

theorem telegram_handle_cut_short:
  "(\<forall>i. i \<le> length text \<and> url_starts (drop i text) \<and> (\<forall>j<i. \<not> url_starts (drop j text)) \<longrightarrow>
      (\<exists>u. extractTelegram text = Some u \<and> telegram_url u \<and>
           take (length u) (drop i text) = u \<and> \<not> nonspace_at (drop (i + length u) text))) \<and>
   ((\<forall>i \<le> length text. \<not> url_starts (drop i text)) \<longrightarrow>
      (\<forall>i. handle_start text i \<and> (\<forall>j<i. \<not> handle_start text j) \<longrightarrow>
         (handle_at text i \<longrightarrow> extractTelegram text = Some (handle_text text i)) \<and>
         (\<not> handle_at text i \<and> 2 \<le> token_length text i \<longrightarrow>
            extractTelegram text = Some (take (token_length text i) (drop i text)))) \<and>
      ((\<forall>i. \<not> handle_start text i) \<longrightarrow> extractTelegram text = None))"
proof (intro conjI allI impI)
  fix i
  assume "i \<le> length text \<and> url_starts (drop i text) \<and> (\<forall>j<i. \<not> url_starts (drop j text))"
  then have "i \<le> length text" "url_starts (drop i text)" "\<forall>j<i. \<not> url_starts (drop j text)"
    by blast+
  from first_url [OF this]
  obtain u where "String_match0 text telegramUrlRegex = Some u" "telegram_url u"
    "take (length u) (drop i text) = u" "\<not> nonspace_at (drop (i + length u) text)"
    by blast
  then show "\<exists>u. extractTelegram text = Some u \<and> telegram_url u \<and>
           take (length u) (drop i text) = u \<and> \<not> nonspace_at (drop (i + length u) text)"
    by (intro exI [of _ u]) (simp add: extractTelegram_def)
next
  fix i
  assume nu: "\<forall>i \<le> length text. \<not> url_starts (drop i text)"
    and s: "handle_start text i \<and> (\<forall>j<i. \<not> handle_start text j)"
    and h: "handle_at text i"
  from s have before: "\<forall>j<i. \<forall>m. \<not> handle_match (take j text) (drop j text) m"
    using handle_match_start(1) by blast
  from s have after: "\<forall>m>token_length text i. \<not> handle_match (take i text) (drop i text) m"
    using handle_start_run(5) by blast
  from first_handle [OF handle_kept [OF h] before after] no_url_None [OF nu]
  show "extractTelegram text = Some (handle_text text i)"
    by (simp add: extractTelegram_def handle_text_def)
next
  fix i
  assume nu: "\<forall>i \<le> length text. \<not> url_starts (drop i text)"
    and s: "handle_start text i \<and> (\<forall>j<i. \<not> handle_start text j)"
    and c: "\<not> handle_at text i \<and> 2 \<le> token_length text i"
  from s have before: "\<forall>j<i. \<forall>m. \<not> handle_match (take j text) (drop j text) m"
    using handle_match_start(1) by blast
  from s c have cut: "handle_match (take i text) (drop i text) (token_length text i - 1)"
    and no: "\<not> handle_match (take i text) (drop i text) (token_length text i)"
    using handle_cut by blast+
  have after: "\<forall>m>token_length text i - 1. \<not> handle_match (take i text) (drop i text) m"
  proof (intro allI impI)
    fix m assume "token_length text i - 1 < m"
    then have "m = token_length text i \<or> token_length text i < m" by arith
    with no s show "\<not> handle_match (take i text) (drop i text) m"
      using handle_start_run(5) by blast
  qed
  from c have "Suc (token_length text i - 1) = token_length text i" by simp
  with first_handle [OF cut before after] no_url_None [OF nu]
  show "extractTelegram text = Some (take (token_length text i) (drop i text))"
    by (simp add: extractTelegram_def)
next
  assume nu: "\<forall>i \<le> length text. \<not> url_starts (drop i text)"
    and ns: "\<forall>i. \<not> handle_start text i"
  have nh: "\<forall>i m. \<not> handle_match (take i text) (drop i text) m"
    using ns handle_match_start(1) by blast
  from no_url_None [OF nu] no_handle_None [OF nh] show "extractTelegram text = None"
    by (simp add: extractTelegram_def)
qed

lemma all_le_upt: "(\<forall>i \<le> n. P i) \<longleftrightarrow> list_all P [0..<Suc n]"
  by (auto simp del: upt_Suc simp: list_all_iff less_Suc_eq_le)

lemma all_less_upt: "(\<forall>i < n. P i) \<longleftrightarrow> list_all P [0..<n]"
  by (auto simp: list_all_iff)

lemma no_handle_start: "(\<forall>i. \<not> handle_start text i) \<longleftrightarrow> list_all (\<lambda>i. \<not> handle_start text i) [0..<length text]"
  by (auto simp: list_all_iff handle_start_def)

lemma upt_0_5: "[0..<5] = [0, 1, 2, 3, 4]"
  by code_simp

lemma upt_0_8: "[0..<8] = [0, 1, 2, 3, 4, 5, 6, 7]"
  by code_simp

lemmas telegram_eval =
  url_starts_def telegram_url_def url_prefixes_def starts_with_def same_ignoring_case_def
  nonspace_at_def handle_start_def handle_at_def handle_text_def token_length_def
  spec_first_handle_def is_word_at_def preceded_by_word_or_dot_def followed_by_dot_word_def
  word_char_def digit_def white_space_def to_upper_def str_def

theorem telegram_handle_cut_short_witness:
  "(\<exists>u. extractTelegram (str ''contact t.me/johndoe'') = Some u \<and> telegram_url u \<and>
        take (length u) (drop 8 (str ''contact t.me/johndoe'')) = u \<and>
        \<not> nonspace_at (drop (8 + length u) (str ''contact t.me/johndoe''))) \<and>
   extractTelegram (str ''contact t.me/johndoe'') = Some (str ''t.me/johndoe'') \<and>
   extractTelegram (str ''ping @johndoe for info'') = Some (str ''@johndoe'') \<and>
   spec_first_handle (str ''ping @johndoe for info'') = Some (str ''@johndoe'') \<and>
   extractTelegram (str ''email john@doe.com'') = None \<and>
   spec_first_handle (str ''email john@doe.com'') = None \<and>
   extractTelegram (str ''site @doe.com'') = Some (str ''@do'') \<and>
   spec_first_handle (str ''site @doe.com'') = None \<and>
   extractTelegram (str ''mail @example.com or @real'') = Some (str ''@exampl'') \<and>
   spec_first_handle (str ''mail @example.com or @real'') = Some (str ''@real'')"
proof (intro conjI)
  let ?t1 = "str ''contact t.me/johndoe''"
  have 1: "8 \<le> length ?t1 \<and> url_starts (drop 8 ?t1) \<and> (\<forall>j<8. \<not> url_starts (drop j ?t1))"
    unfolding all_less_upt upt_0_8 by (simp add: telegram_eval)
  with telegram_handle_cut_short [of ?t1]
  show "\<exists>u. extractTelegram ?t1 = Some u \<and> telegram_url u \<and>
        take (length u) (drop 8 ?t1) = u \<and> \<not> nonspace_at (drop (8 + length u) ?t1)"
    by blast
  show "extractTelegram ?t1 = Some (str ''t.me/johndoe'')"
    by (simp add: extractTelegram_def telegramUrlRegex_def regex_eval)
  let ?t2 = "str ''ping @johndoe for info''"
  have nu2: "\<forall>i \<le> length ?t2. \<not> url_starts (drop i ?t2)"
    unfolding all_le_upt by (simp add: telegram_eval)
  have s2: "handle_start ?t2 5 \<and> (\<forall>j<5. \<not> handle_start ?t2 j)"
    unfolding all_less_upt upt_0_5 by (simp add: telegram_eval)
  have h2: "handle_at ?t2 5"
    by (simp add: telegram_eval)
  from telegram_handle_cut_short [of ?t2] nu2 s2 h2
  have "extractTelegram ?t2 = Some (handle_text ?t2 5)" by blast
  then show "extractTelegram ?t2 = Some (str ''@johndoe'')"
    by (simp add: telegram_eval)
  show "spec_first_handle ?t2 = Some (str ''@johndoe'')"
    by (simp add: telegram_eval)
  let ?t3 = "str ''email john@doe.com''"
  have nu3: "\<forall>i \<le> length ?t3. \<not> url_starts (drop i ?t3)"
    unfolding all_le_upt by (simp add: telegram_eval)
  have ns3: "\<forall>i. \<not> handle_start ?t3 i"
    unfolding no_handle_start by (simp add: telegram_eval)
  from telegram_handle_cut_short [of ?t3] nu3 ns3
  show "extractTelegram ?t3 = None" by blast
  show "spec_first_handle ?t3 = None"
    by (simp add: telegram_eval)
  let ?t4 = "str ''site @doe.com''"
  have nu4: "\<forall>i \<le> length ?t4. \<not> url_starts (drop i ?t4)"
    unfolding all_le_upt by (simp add: telegram_eval)
  have s4: "handle_start ?t4 5 \<and> (\<forall>j<5. \<not> handle_start ?t4 j)"
    unfolding all_less_upt upt_0_5 by (simp add: telegram_eval)
  have c4: "\<not> handle_at ?t4 5 \<and> 2 \<le> token_length ?t4 5"
    by (simp add: telegram_eval)
  from telegram_handle_cut_short [of ?t4] nu4 s4 c4
  have "extractTelegram ?t4 = Some (take (token_length ?t4 5) (drop 5 ?t4))" by blast
  then show "extractTelegram ?t4 = Some (str ''@do'')"
    by (simp add: telegram_eval)
  show "spec_first_handle ?t4 = None"
    by (simp add: telegram_eval)
  let ?t5 = "str ''mail @example.com or @real''"
  have nu5: "\<forall>i \<le> length ?t5. \<not> url_starts (drop i ?t5)"
    unfolding all_le_upt by (simp add: telegram_eval)
  have s5: "handle_start ?t5 5 \<and> (\<forall>j<5. \<not> handle_start ?t5 j)"
    unfolding all_less_upt upt_0_5 by (simp add: telegram_eval)
  have c5: "\<not> handle_at ?t5 5 \<and> 2 \<le> token_length ?t5 5"
    by (simp add: telegram_eval)
  from telegram_handle_cut_short [of ?t5] nu5 s5 c5
  have "extractTelegram ?t5 = Some (take (token_length ?t5 5) (drop 5 ?t5))" by blast
  then show "extractTelegram ?t5 = Some (str ''@exampl'')"
    by (simp add: telegram_eval)
  show "spec_first_handle ?t5 = Some (str ''@real'')"
    by (simp add: telegram_eval)
qed

section \<open>The matcher and the strings of a pattern\<close>

lemma lang_Star_concat: "set ws \<subseteq> lang ic r \<Longrightarrow> concat ws \<in> lang ic (Star r)"
  by auto

lemma matches_sound:
  "y \<in> set (matches ic r x) \<Longrightarrow> \<exists>s \<in> lang ic r. fst (snd x) = s @ fst (snd y)"
proof (induction ic r x arbitrary: y rule: matches.induct)
  case (1 ic x)
  then show ?case by simp
next
  case (2 ic A neg b g)
  then show ?case by simp
next
  case (3 ic A neg b c cs g)
  then show ?case by (auto split: if_splits)
next
  case (4 ic r s x)
  from "4.prems" obtain z where z: "z \<in> set (matches ic r x)" and y: "y \<in> set (matches ic s z)"
    by auto
  from "4.IH"(1) [OF z] obtain s1 where s1: "s1 \<in> lang ic r" "fst (snd x) = s1 @ fst (snd z)"
    by blast
  from "4.IH"(2) [OF z y] obtain s2 where s2: "s2 \<in> lang ic s" "fst (snd z) = s2 @ fst (snd y)"
    by blast
  from s1 s2 have "s1 @ s2 \<in> lang ic (Seq r s)" "fst (snd x) = (s1 @ s2) @ fst (snd y)"
    by auto
  then show ?case by blast
next
  case (5 ic r s x)
  from "5.prems" have "y \<in> set (matches ic r x) \<or> y \<in> set (matches ic s x)" by simp
  then show ?case
  proof
    assume "y \<in> set (matches ic r x)"
    from "5.IH"(1) [OF this] show ?thesis by auto
  next
    assume "y \<in> set (matches ic s x)"
    from "5.IH"(2) [OF this] show ?thesis by auto
  qed
next
  case (6 ic r b a g)
  show ?case
  proof (cases "y = (b, a, g)")
    case True
    have "concat [] \<in> lang ic (Star r)" by (rule lang_Star_concat) simp
    with True show ?thesis by simp
  next
    case False
    with "6.prems" obtain z where z: "z \<in> set (matches ic r (b, a, g))"
      and lt: "length (fst (snd z)) < length a" and y: "y \<in> set (matches ic (Star r) z)"
      by (auto split: if_splits)
    from "6.IH"(1) [OF z] obtain s1 where s1: "s1 \<in> lang ic r" "a = s1 @ fst (snd z)"
      by auto
    from "6.IH"(2) [OF z lt y] obtain ws where ws: "set ws \<subseteq> lang ic r"
      "fst (snd z) = concat ws @ fst (snd y)"
      by auto
    from s1 ws have sub: "set (s1 # ws) \<subseteq> lang ic r" and a: "a = concat (s1 # ws) @ fst (snd y)"
      by auto
    from sub have "concat (s1 # ws) \<in> lang ic (Star r)" by (rule lang_Star_concat)
    moreover from a have "fst (snd (b, a, g)) = concat (s1 # ws) @ fst (snd y)" by simp
    ultimately show ?thesis by blast
  qed
next
  case (7 ic r b a g)
  from "7.prems" have "y = (b, a, g) \<or> y \<in> set (matches ic r (b, a, g))" by auto
  then show ?case using "7.IH" [of y] by auto
next
  case (8 ic n r b a g)
  from "8.prems" obtain z where z: "z \<in> set (matches ic r (b, a, g))"
    and y: "fst (snd y) = fst (snd z)"
    by (auto split: prod.splits)
  from "8.IH" [OF z] y show ?case by simp
next
  case (9 ic b a g)
  then show ?case by (auto split: if_splits)
next
  case (10 ic A b a g)
  then show ?case by (auto split: if_splits list.splits)
next
  case (11 ic r x)
  then show ?case by (auto split: if_splits)
qed

lemma matches_complete:
  "assertion_free r \<Longrightarrow> s \<in> lang ic r \<Longrightarrow>
     \<exists>g'. (rev s @ b, t, g') \<in> set (matches ic r (b, s @ t, g))"
proof (induction r arbitrary: s b t g)
  case Empty
  then show ?case by simp
next
  case (CharSet A neg)
  then show ?case by auto
next
  case (Seq r1 r2)
  from Seq.prems obtain u v where s: "s = u @ v" and u: "u \<in> lang ic r1" and v: "v \<in> lang ic r2"
    by auto
  from Seq.IH(1) [of u b "v @ t" g] Seq.prems(1) u
  obtain g1 where 1: "(rev u @ b, v @ t, g1) \<in> set (matches ic r1 (b, u @ v @ t, g))" by auto
  from Seq.IH(2) [of v "rev u @ b" t g1] Seq.prems(1) v
  obtain g2 where 2: "(rev v @ rev u @ b, t, g2) \<in> set (matches ic r2 (rev u @ b, v @ t, g1))" by auto
  from 1 2 have "(rev s @ b, t, g2) \<in> set (matches ic (Seq r1 r2) (b, s @ t, g))"
    unfolding s by (simp del: append_assoc) (fastforce)
  then show ?case by blast
next
  case (Alt r1 r2)
  then show ?case by (auto; blast)
next
  case (Star r)
  from Star.prems obtain ws where ws: "set ws \<subseteq> lang ic r" and s: "s = concat ws" by auto
  have "\<exists>g'. (rev (concat ws) @ b, t, g') \<in> set (matches ic (Star r) (b, concat ws @ t, g))"
    using ws
  proof (induction ws arbitrary: b g)
    case Nil
    show ?case by (intro exI [of _ g]) simp
  next
    case (Cons w ws)
    show ?case
    proof (cases "w = []")
      case True
      with Cons show ?thesis by simp
    next
      case False
      from Cons.prems have w: "w \<in> lang ic r" and rest: "set ws \<subseteq> lang ic r" by auto
      from Star.IH [of w b "concat ws @ t" g] Star.prems(1) w
      obtain g1 where 1: "(rev w @ b, concat ws @ t, g1) \<in> set (matches ic r (b, w @ concat ws @ t, g))"
        by auto
      from Cons.IH [OF rest, of "rev w @ b" g1]
      obtain g2 where 2: "(rev (concat ws) @ rev w @ b, t, g2) \<in>
          set (matches ic (Star r) (rev w @ b, concat ws @ t, g1))"
        by blast
      have lt: "length (concat ws @ t) < length (w @ concat ws @ t)" using False by simp
      from 1 2 lt have "(rev (concat ws) @ rev w @ b, t, g2) \<in>
          set (matches ic (Star r) (b, w @ concat ws @ t, g))"
        by (subst matches.simps(6)) (auto intro!: bexI [of _ "(rev w @ b, concat ws @ t, g1)"] simp del: matches.simps)
      then show ?thesis by (intro exI [of _ g2]) simp
    qed
  qed
  then show ?case by (simp add: s)
next
  case (Opt r)
  show ?case
  proof (cases "s = []")
    case True
    then show ?thesis by simp
  next
    case False
    with Opt.prems have "s \<in> lang ic r" by simp
    from Opt.IH [OF _ this, of b t g] Opt.prems(1)
    obtain g1 where "(rev s @ b, t, g1) \<in> set (matches ic r (b, s @ t, g))" by auto
    with False show ?thesis by (intro exI [of _ g1]) simp
  qed
next
  case (Group n r)
  from Group.IH [of s b t g] Group.prems
  obtain g1 where "(rev s @ b, t, g1) \<in> set (matches ic r (b, s @ t, g))" by auto
  then have "(rev s @ b, t, g1 @ [(n, rev (take (length (rev s @ b) - length b) (rev s @ b)))]) \<in>
      set (matches ic (Group n r) (b, s @ t, g))"
    by (force simp del: rev_append)
  then show ?case by blast
next
  case WordBoundary
  then show ?case by simp
next
  case (NotBehind A)
  then show ?case by simp
next
  case (NotAhead r)
  then show ?case by simp
qed

lemma matches_nonempty_iff:
  assumes "assertion_free r"
  shows "matches ic r (b, a, g) \<noteq> [] \<longleftrightarrow> (\<exists>s t. a = s @ t \<and> s \<in> lang ic r)"
proof
  assume "matches ic r (b, a, g) \<noteq> []"
  then obtain y where "y \<in> set (matches ic r (b, a, g))" by (cases "matches ic r (b, a, g)") auto
  from matches_sound [OF this] show "\<exists>s t. a = s @ t \<and> s \<in> lang ic r" by auto
next
  assume "\<exists>s t. a = s @ t \<and> s \<in> lang ic r"
  then obtain s t where "a = s @ t" "s \<in> lang ic r" by blast
  with matches_complete [OF assms, of s ic b t g] show "matches ic r (b, a, g) \<noteq> []" by auto
qed

section \<open>The salary extractor\<close>

lemma in_set_currency: "in_set True currency_symbol c \<longleftrightarrow> currency_symbol c"
  by (auto simp: in_set_def currency_symbol_def to_upper_def to_lower_def dollar_def euro_def pound_def)

lemma in_set_space: "in_set True (\<lambda>x. x = 32) c \<longleftrightarrow> c = 32"
  by (auto simp: in_set_def to_upper_def to_lower_def)

lemma salary_needs_symbol:
  "a = [] \<or> \<not> currency_symbol (hd a) \<Longrightarrow> matches True (pattern salaryRegex) (b, a, g) = []"
  unfolding salaryRegex_def cls_def
  by (simp only: regexp.simps seqs.simps) (rule seq_group_charset_Nil, simp add: in_set_currency)

lemma salary_needs_space:
  assumes "32 \<notin> set a"
  shows "matches True (pattern salaryRegex) (b, a, g) = []"
proof -
  have sp: "matches True (Seq (between 1 3 (chr 32)) r) y = []"
    if "set (fst (snd y)) \<subseteq> set a" for y r
  proof -
    obtain b' a' g' where y: "y = (b', a', g')" by (cases y)
    with that assms have "a' = [] \<or> hd a' \<noteq> 32" by (cases a') auto
    then have "matches True (between 1 3 (chr 32)) (b', a', g') = []"
      unfolding between_def chr_def
      by (simp only: One_nat_def times.simps) (rule seq_charset_Nil, simp add: in_set_space)
    then show ?thesis by (simp add: y)
  qed
  have sub: "set (fst (snd z)) \<subseteq> set (fst (snd y))" if "z \<in> set (matches True r y)" for r y z
    using matches_consumes [OF that] by auto
  show ?thesis
    unfolding salaryRegex_def
    apply (simp only: regexp.simps seqs.simps)
    apply (rule seq_Nil)
    apply (rule seq_Nil)
    apply (rule seq_Nil)
    apply (rule sp)
    apply (drule sub)+
    apply simp
    done
qed

lemma exec_None:
  assumes "\<And>bb aa. set aa \<subseteq> set S \<Longrightarrow> matches (ignoreCase R) (pattern R) (bb, aa, []) = []"
  shows "fst (RegExp_exec R li S) = None"
proof -
  have "scan (ignoreCase R) (pattern R) bb aa = None" if "set aa \<subseteq> set S" for bb aa
    unfolding scan_None_iff using assms that by (meson order_trans set_drop_subset)
  then show ?thesis
    by (simp add: RegExp_exec_def Let_def set_drop_subset)
qed

lemma salary_None:
  assumes "\<And>bb aa. set aa \<subseteq> set S \<Longrightarrow> matches True (pattern salaryRegex) (bb, aa, []) = []"
  shows "fst (extractSalary w S) = None"
proof -
  have "ignoreCase salaryRegex = True" by (simp add: salaryRegex_def)
  with exec_None [of S salaryRegex "salary_lastIndex w"] assms
  have "fst (RegExp_exec salaryRegex (salary_lastIndex w) S) = None" by simp
  then show ?thesis
    by (cases "RegExp_exec salaryRegex (salary_lastIndex w) S") (simp add: extractSalary_def)
qed

lemma in_set_digit: "in_set True digit c \<longleftrightarrow> digit c"
  by (auto simp: in_set_def digit_def to_upper_def to_lower_def)

lemma in_set_comma: "in_set True (\<lambda>x. x = 44) c \<longleftrightarrow> c = 44"
  by (auto simp: in_set_def to_upper_def to_lower_def)

lemma in_set_point: "in_set True (\<lambda>x. x = 46) c \<longleftrightarrow> c = 46"
  by (auto simp: in_set_def to_upper_def to_lower_def)

lemma lang_SeqI: "u \<in> lang ic r \<Longrightarrow> v \<in> lang ic s \<Longrightarrow> u @ v \<in> lang ic (Seq r s)"
  by auto

lemma lang_SeqE: "w \<in> lang ic (Seq r s) \<Longrightarrow> \<exists>u v. w = u @ v \<and> u \<in> lang ic r \<and> v \<in> lang ic s"
  by auto

lemma lang_Seq_CharSet:
  "lang ic (Seq (CharSet A neg) s) = {c # v | c v. in_set ic A c \<noteq> neg \<and> v \<in> lang ic s}"
proof (intro set_eqI iffI)
  fix w assume "w \<in> lang ic (Seq (CharSet A neg) s)"
  then show "w \<in> {c # v | c v. in_set ic A c \<noteq> neg \<and> v \<in> lang ic s}" by auto
next
  fix w assume "w \<in> {c # v | c v. in_set ic A c \<noteq> neg \<and> v \<in> lang ic s}"
  then obtain c v where w: "w = [c] @ v" and "in_set ic A c \<noteq> neg" "v \<in> lang ic s" by auto
  then have "[c] \<in> lang ic (CharSet A neg)" by simp
  then show "w \<in> lang ic (Seq (CharSet A neg) s)"
    unfolding w using \<open>v \<in> lang ic s\<close> by (rule lang_SeqI)
qed

lemma lang_Seq_Empty: "lang ic (Seq r Empty) = lang ic r"
  by simp

lemma lang_Seq_Opt: "lang ic (Seq (Opt r) s) = lang ic (Seq r s) \<union> lang ic s"
proof (intro set_eqI iffI)
  fix w assume "w \<in> lang ic (Seq (Opt r) s)"
  then show "w \<in> lang ic (Seq r s) \<union> lang ic s" by auto
next
  fix w assume "w \<in> lang ic (Seq r s) \<union> lang ic s"
  then show "w \<in> lang ic (Seq (Opt r) s)"
  proof
    assume "w \<in> lang ic (Seq r s)"
    then show ?thesis by auto
  next
    assume "w \<in> lang ic s"
    then have "[] @ w \<in> lang ic (Seq (Opt r) s)" by (intro lang_SeqI) simp_all
    then show ?thesis by simp
  qed
qed

lemma lang_lit: "lang True (lit p) = {s. same_ignoring_case s p}"
proof (induction p)
  case Nil
  then show ?case by (simp add: lit_def same_ignoring_case_def)
next
  case (Cons c p)
  have "lit (c # p) = Seq (CharSet (\<lambda>x. x = c) False) (lit p)" by (simp add: lit_def chr_def)
  then have "lang True (lit (c # p)) = {x # v | x v. to_upper x = to_upper c \<and> same_ignoring_case v p}"
    using Cons.IH by (simp only: lang_Seq_CharSet in_set_literal) simp
  also have "\<dots> = {s. same_ignoring_case s (c # p)}"
    by (auto simp: same_ignoring_case_def Cons_eq_map_conv)
  finally show ?case .
qed

lemma lang_star_singletons:
  "{concat ws | ws. set ws \<subseteq> {[c] | c. P c}} = {s. list_all P s}"
proof (intro set_eqI iffI)
  fix s assume "s \<in> {concat ws | ws. set ws \<subseteq> {[c] | c. P c}}"
  then obtain ws where s: "s = concat ws" and ws: "set ws \<subseteq> {[c] | c. P c}" by blast
  from ws have "list_all P (concat ws)"
    by (induction ws) auto
  with s show "s \<in> {s. list_all P s}" by simp
next
  fix s assume "s \<in> {s. list_all P s}"
  then have "set (map (\<lambda>c. [c]) s) \<subseteq> {[c] | c. P c}" by (auto simp: list_all_iff)
  moreover have "s = concat (map (\<lambda>c. [c]) s)" by (induction s) auto
  ultimately show "s \<in> {concat ws | ws. set ws \<subseteq> {[c] | c. P c}}" by blast
qed

lemma lang_digits: "lang True (Plus (cls digit)) = {s. s \<noteq> [] \<and> list_all digit s}"
proof -
  have "lang True (Star (CharSet digit False)) = {s. list_all digit s}"
    using lang_star_singletons [of digit] by (simp add: in_set_digit)
  then have "lang True (Plus (cls digit)) = {c # v | c v. digit c \<and> list_all digit v}"
    unfolding Plus_def cls_def by (simp only: lang_Seq_CharSet in_set_digit) simp
  also have "\<dots> = {s. s \<noteq> [] \<and> list_all digit s}"
  proof (intro set_eqI iffI)
    fix s assume "s \<in> {s. s \<noteq> [] \<and> list_all digit s}"
    then show "s \<in> {c # v | c v. digit c \<and> list_all digit v}"
      by (cases s) auto
  qed auto
  finally show ?thesis .
qed

lemma three_digits_iff: "three_digits d \<longleftrightarrow> (\<exists>x y z. d = [x, y, z] \<and> digit x \<and> digit y \<and> digit z)"
  by (auto simp: three_digits_def length_Suc_conv numeral_3_eq_3)

lemma lang_three: "lang True (times 3 (cls digit) Empty) = {d. three_digits d}"
proof -
  have "times 3 (cls digit) Empty =
      Seq (CharSet digit False) (Seq (CharSet digit False) (Seq (CharSet digit False) Empty))"
    by (simp add: numeral_3_eq_3 cls_def)
  then show ?thesis
    by (simp only: lang_Seq_CharSet in_set_digit lang.simps(1)) (auto simp: three_digits_iff)
qed

lemma lang_group3:
  "lang True (Seq (Opt (chr 44)) (times 3 (cls digit) Empty)) =
     {g. three_digits g \<or> (\<exists>d. g = 44 # d \<and> three_digits d)}"
  unfolding chr_def
  by (simp only: lang_Seq_Opt lang_Seq_CharSet in_set_comma lang_three) auto

lemma lang_fraction:
  "lang True (Opt (Seq (chr 46) (between 1 2 (cls digit)))) =
     {frac. frac = [] \<or> (\<exists>d. frac = 46 # d \<and> (length d = 1 \<or> length d = 2) \<and> list_all digit d)}"
proof -
  have "between 1 2 (cls digit) = Seq (CharSet digit False) (Opt (Seq (CharSet digit False) Empty))"
    by (simp add: between_def cls_def)
  then have "lang True (between 1 2 (cls digit)) = {d. (length d = 1 \<or> length d = 2) \<and> list_all digit d}"
    by (simp only: lang_Seq_CharSet lang_Seq_Empty lang.simps(2,6) in_set_digit)
       (auto simp: length_Suc_conv numeral_2_eq_2)
  then show ?thesis
    unfolding chr_def
    by (simp only: lang.simps(6) lang_Seq_CharSet in_set_point) auto
qed

lemma lang_Seq_cong: "lang ic s = lang ic s' \<Longrightarrow> lang ic (Seq r s) = lang ic (Seq r s')"
  by simp

lemma lang_seqs3: "lang ic (seqs [p, q, r]) = lang ic (Seq p (Seq q r))"
  unfolding seqs.simps by (intro lang_Seq_cong lang_Seq_Empty)

lemma lang_amount:
  "lang True (seqs [Plus (cls digit),
                    Star (Seq (Opt (chr 44)) (times 3 (cls digit) Empty)),
                    Opt (Seq (chr 46) (between 1 2 (cls digit)))]) = {amt. amount_text amt}"
proof (intro set_eqI iffI)
  let ?S = "Star (Seq (Opt (chr 44)) (times 3 (cls digit) Empty))"
  let ?O = "Opt (Seq (chr 46) (between 1 2 (cls digit)))"
  fix amt
  assume "amt \<in> lang True (seqs [Plus (cls digit), ?S, ?O])"
  then have "amt \<in> lang True (Seq (Plus (cls digit)) (Seq ?S ?O))"
    by (simp only: lang_seqs3)
  then obtain lead v where 1: "amt = lead @ v" "lead \<in> lang True (Plus (cls digit))"
    "v \<in> lang True (Seq ?S ?O)"
    using lang_SeqE by blast
  then obtain m frac where 2: "v = m @ frac" "m \<in> lang True ?S" "frac \<in> lang True ?O"
    using lang_SeqE by blast
  from 2(2) obtain gs where 3: "m = concat gs"
    "set gs \<subseteq> {g. three_digits g \<or> (\<exists>d. g = 44 # d \<and> three_digits d)}"
    by (auto simp only: lang.simps(5) lang_group3)
  from 1(2) have l: "lead \<noteq> []" "list_all digit lead" by (simp_all add: lang_digits)
  from 2(3) have f: "frac = [] \<or> (\<exists>d. frac = 46 # d \<and> (length d = 1 \<or> length d = 2) \<and> list_all digit d)"
    unfolding lang_fraction by simp
  from 3(2) have g: "\<forall>g \<in> set gs. three_digits g \<or> (\<exists>d. g = 44 # d \<and> three_digits d)"
    by auto
  have "amt = lead @ concat gs @ frac" using 1(1) 2(1) 3(1) by simp
  with l f g have "amount_text amt"
    unfolding amount_text_def by blast
  then show "amt \<in> {amt. amount_text amt}" by simp
next
  let ?S = "Star (Seq (Opt (chr 44)) (times 3 (cls digit) Empty))"
  let ?O = "Opt (Seq (chr 46) (between 1 2 (cls digit)))"
  fix amt assume "amt \<in> {amt. amount_text amt}"
  then obtain lead gs frac where a: "amt = lead @ concat gs @ frac" "lead \<noteq> []" "list_all digit lead"
    "\<forall>g \<in> set gs. three_digits g \<or> (\<exists>d. g = 44 # d \<and> three_digits d)"
    "frac = [] \<or> (\<exists>d. frac = 46 # d \<and> (length d = 1 \<or> length d = 2) \<and> list_all digit d)"
    unfolding amount_text_def by auto
  from a(2,3) have 1: "lead \<in> lang True (Plus (cls digit))" by (simp add: lang_digits)
  from a(4) have "set gs \<subseteq> lang True (Seq (Opt (chr 44)) (times 3 (cls digit) Empty))"
    unfolding lang_group3 by auto
  then have 2: "concat gs \<in> lang True ?S" by (rule lang_Star_concat)
  from a(5) have 3: "frac \<in> lang True ?O" unfolding lang_fraction by simp
  from lang_SeqI [OF 1 lang_SeqI [OF 2 3]]
  show "amt \<in> lang True (seqs [Plus (cls digit), ?S, ?O])"
    unfolding a(1) by (simp only: lang_seqs3)
qed

lemma matches_groups:
  "y \<in> set (matches ic r x) \<Longrightarrow>
     \<exists>e. snd (snd y) = snd (snd x) @ e \<and> fst ` set e \<subseteq> group_names r"
proof (induction ic r x arbitrary: y rule: matches.induct)
  case (1 ic x)
  then show ?case by simp
next
  case (2 ic A neg b g)
  then show ?case by simp
next
  case (3 ic A neg b c cs g)
  then show ?case by (auto split: if_splits)
next
  case (4 ic r s x)
  from "4.prems" obtain z where z: "z \<in> set (matches ic r x)" and y: "y \<in> set (matches ic s z)"
    by auto
  from "4.IH"(1) [OF z] obtain e1 where e1: "snd (snd z) = snd (snd x) @ e1" "fst ` set e1 \<subseteq> group_names r"
    by blast
  from "4.IH"(2) [OF z y] obtain e2 where e2: "snd (snd y) = snd (snd z) @ e2" "fst ` set e2 \<subseteq> group_names s"
    by blast
  from e1 e2 show ?case by (intro exI [of _ "e1 @ e2"]) auto
next
  case (5 ic r s x)
  from "5.prems" have "y \<in> set (matches ic r x) \<or> y \<in> set (matches ic s x)" by simp
  then show ?case
  proof
    assume "y \<in> set (matches ic r x)"
    from "5.IH"(1) [OF this] show ?thesis by auto
  next
    assume "y \<in> set (matches ic s x)"
    from "5.IH"(2) [OF this] show ?thesis by auto
  qed
next
  case (6 ic r b a g)
  show ?case
  proof (cases "y = (b, a, g)")
    case True
    then show ?thesis by simp
  next
    case False
    with "6.prems" obtain z where z: "z \<in> set (matches ic r (b, a, g))"
      and lt: "length (fst (snd z)) < length a" and y: "y \<in> set (matches ic (Star r) z)"
      by (auto split: if_splits)
    from "6.IH"(1) [OF z] obtain e1 where e1: "snd (snd z) = g @ e1" "fst ` set e1 \<subseteq> group_names r"
      by auto
    from "6.IH"(2) [OF z lt y] obtain e2
      where e2: "snd (snd y) = snd (snd z) @ e2" "fst ` set e2 \<subseteq> group_names r"
      by auto
    from e1 e2 show ?thesis by (intro exI [of _ "e1 @ e2"]) auto
  qed
next
  case (7 ic r b a g)
  from "7.prems" have "y = (b, a, g) \<or> y \<in> set (matches ic r (b, a, g))" by auto
  then show ?case using "7.IH" [of y] by auto
next
  case (8 ic n r b a g)
  from "8.prems" obtain z v where z: "z \<in> set (matches ic r (b, a, g))"
    and y: "snd (snd y) = snd (snd z) @ [(n, v)]"
    by (auto split: prod.splits)
  from "8.IH" [OF z] obtain e where "snd (snd z) = g @ e" "fst ` set e \<subseteq> group_names r" by auto
  with y show ?case by (intro exI [of _ "e @ [(n, v)]"]) auto
next
  case (9 ic b a g)
  then show ?case by (auto split: if_splits)
next
  case (10 ic A b a g)
  then show ?case by (auto split: if_splits list.splits)
next
  case (11 ic r x)
  then show ?case by (auto split: if_splits)
qed

lemma matches_Group_capture:
  assumes "y \<in> set (matches ic (Group n r) (b, a, g))" and "group_names r = {}"
  shows "\<exists>s \<in> lang ic r. snd (snd y) = g @ [(n, s)]"
proof -
  from assms(1) obtain b' a' g' where z: "(b', a', g') \<in> set (matches ic r (b, a, g))"
    and y: "y = (b', a', g' @ [(n, rev (take (length b' - length b) b'))])"
    by auto
  from matches_consumes [OF z] obtain s where s: "a = s @ a'" "b' = rev s @ b" by auto
  from matches_sound [OF z] obtain s' where s': "s' \<in> lang ic r" "a = s' @ a'" by auto
  from s s' have "s' = s" by simp
  from matches_groups [OF z] assms(2) have "g' = g" by auto
  from s(2) have "rev (take (length b' - length b) b') = s" by simp
  with y \<open>g' = g\<close> s'(1) \<open>s' = s\<close> show ?thesis by auto
qed

lemma salary_pattern:
  "pattern salaryRegex =
     Seq (Group ''currencySymbol'' (cls currency_symbol))
       (Seq (Opt (cls white_space))
         (Seq (Group ''amount'' amount_pattern)
           (Seq (between 1 3 (chr 32)) salary_tail)))"
  by (simp add: salaryRegex_def salary_tail_def amount_pattern_def)

lemma lang_amount_pattern: "lang True amount_pattern = {amt. amount_text amt}"
  unfolding amount_pattern_def by (rule lang_amount)

lemma lang_opt_class:
  assumes "\<And>c. in_set True A c = P c"
  shows "lang True (Opt (CharSet A False)) = {s. length s \<le> 1 \<and> list_all P s}"
proof (intro set_eqI iffI)
  fix s assume "s \<in> lang True (Opt (CharSet A False))"
  then show "s \<in> {s. length s \<le> 1 \<and> list_all P s}" using assms by auto
next
  fix s assume "s \<in> {s. length s \<le> 1 \<and> list_all P s}"
  then have "s = [] \<or> (\<exists>c. s = [c] \<and> P c)"
    by (cases s) auto
  then show "s \<in> lang True (Opt (CharSet A False))" using assms by auto
qed

lemma matches_SeqE:
  "y \<in> set (matches ic (Seq r s) x) \<Longrightarrow> \<exists>z \<in> set (matches ic r x). y \<in> set (matches ic s z)"
  by simp

lemma lang_spaces:
  "lang True (between 1 3 (chr 32)) = {32 # sp | sp. length sp \<le> 2 \<and> list_all (\<lambda>c. c = 32) sp}"
proof -
  let ?c = "CharSet (\<lambda>x. x = 32) False"
  have b: "between 1 3 (chr 32) = Seq ?c (Opt (Seq ?c (Opt (Seq ?c Empty))))"
    by (simp add: between_def chr_def numeral_2_eq_2)
  have "lang True (Opt (Seq ?c (Opt (Seq ?c Empty)))) = {sp. length sp \<le> 2 \<and> list_all (\<lambda>c. c = 32) sp}"
  proof (intro set_eqI iffI)
    fix sp :: ustring assume "sp \<in> lang True (Opt (Seq ?c (Opt (Seq ?c Empty))))"
    then show "sp \<in> {sp. length sp \<le> 2 \<and> list_all (\<lambda>c. c = 32) sp}"
      by (simp only: lang.simps(6) lang_Seq_CharSet lang_Seq_Empty lang.simps(1,2) in_set_space)
         auto
  next
    fix sp :: ustring assume "sp \<in> {sp. length sp \<le> 2 \<and> list_all (\<lambda>c. c = 32) sp}"
    then have "sp = [] \<or> sp = [32] \<or> sp = [32, 32]"
      by (cases sp; cases "tl sp") auto
    then show "sp \<in> lang True (Opt (Seq ?c (Opt (Seq ?c Empty))))"
      by (simp only: lang.simps(6) lang_Seq_CharSet lang_Seq_Empty lang.simps(1,2) in_set_space)
         auto
  qed
  then show ?thesis
    unfolding b by (simp only: lang_Seq_CharSet in_set_space) auto
qed

lemma lang_keyword:
  "lang True (Opt (Alt (lit (str ''per year''))
                  (Alt (lit (str ''annually''))
                  (Alt (lit (str ''per annum'')) (lit (str ''per month'')))))) =
     {kw. period_keyword kw}"
  by (auto simp: lang_lit period_keyword_def)

lemma lang_tail:
  assumes "w \<in> lang True salary_tail"
  shows "\<exists>sym2 ws kw. w = sym2 @ ws @ kw \<and> length sym2 \<le> 1 \<and> list_all currency_symbol sym2 \<and>
           length ws \<le> 2 \<and> list_all white_space ws \<and> period_keyword kw"
proof -
  let ?K = "Opt (Alt (lit (str ''per year'')) (Alt (lit (str ''annually''))
                (Alt (lit (str ''per annum'')) (lit (str ''per month'')))))"
  let ?W = "Opt (CharSet white_space False)"
  let ?C = "Opt (Group ''currencySymbol2'' (CharSet currency_symbol False))"
  have t: "lang True salary_tail = lang True (Seq ?C (Seq ?W (Seq ?W ?K)))"
    unfolding salary_tail_def seqs.simps cls_def
    by (intro lang_Seq_cong lang_Seq_Empty)
  from assms obtain sym2 v1 where 1: "w = sym2 @ v1" "sym2 \<in> lang True ?C" "v1 \<in> lang True (Seq ?W (Seq ?W ?K))"
    unfolding t using lang_SeqE by blast
  from 1(3) obtain w1 v2 where 2: "v1 = w1 @ v2" "w1 \<in> lang True ?W" "v2 \<in> lang True (Seq ?W ?K)"
    using lang_SeqE by blast
  from 2(3) obtain w2 kw where 3: "v2 = w2 @ kw" "w2 \<in> lang True ?W" "kw \<in> lang True ?K"
    using lang_SeqE by blast
  have "lang True ?C = lang True (Opt (CharSet currency_symbol False))" by simp
  with 1(2) have c: "length sym2 \<le> 1" "list_all currency_symbol sym2"
    by (simp_all only: lang_opt_class [of currency_symbol currency_symbol, OF in_set_currency] mem_Collect_eq)
  from 2(2) 3(2) have ws: "length w1 \<le> 1" "list_all white_space w1" "length w2 \<le> 1" "list_all white_space w2"
    by (simp_all only: lang_opt_class [of white_space white_space, OF in_set_white_space] mem_Collect_eq)
  from 3(3) have k: "period_keyword kw" by (simp only: lang_keyword mem_Collect_eq)
  have "w = sym2 @ (w1 @ w2) @ kw" using 1(1) 2(1) 3(1) by simp
  moreover have "length (w1 @ w2) \<le> 2" "list_all white_space (w1 @ w2)" using ws by simp_all
  ultimately show ?thesis using c k by blast
qed

lemma lang_tail_Nil: "[] \<in> lang True salary_tail"
  by (simp add: salary_tail_def)

lemma lang_salary_phrase:
  assumes "s \<in> lang True (pattern salaryRegex)"
  shows "salary_phrase s"
proof -
  from assms obtain u1 v1 where 1: "s = u1 @ v1" "u1 \<in> lang True (Group ''currencySymbol'' (cls currency_symbol))"
    "v1 \<in> lang True (Seq (Opt (cls white_space))
         (Seq (Group ''amount'' amount_pattern) (Seq (between 1 3 (chr 32)) salary_tail)))"
    unfolding salary_pattern using lang_SeqE by blast
  from 1(3) obtain sp v2 where 2: "v1 = sp @ v2" "sp \<in> lang True (Opt (cls white_space))"
    "v2 \<in> lang True (Seq (Group ''amount'' amount_pattern) (Seq (between 1 3 (chr 32)) salary_tail))"
    using lang_SeqE by blast
  from 2(3) obtain amt v3 where 3: "v2 = amt @ v3" "amt \<in> lang True (Group ''amount'' amount_pattern)"
    "v3 \<in> lang True (Seq (between 1 3 (chr 32)) salary_tail)"
    using lang_SeqE by blast
  from 3(3) obtain u4 w where 4: "v3 = u4 @ w" "u4 \<in> lang True (between 1 3 (chr 32))"
    "w \<in> lang True salary_tail"
    using lang_SeqE by blast
  from 1(2) obtain sym where sym: "u1 = [sym]" "currency_symbol sym"
    by (auto simp: cls_def in_set_currency)
  from 2(2) have sp: "length sp \<le> 1" "list_all white_space sp"
    unfolding cls_def
    by (simp_all only: lang_opt_class [of white_space white_space, OF in_set_white_space] mem_Collect_eq)
  from 3(2) have "amt \<in> lang True amount_pattern" by (simp only: lang.simps(7))
  then have amt: "amount_text amt" by (simp only: lang_amount_pattern mem_Collect_eq)
  from 4(2) obtain sp3 where sp3: "u4 = 32 # sp3" "length sp3 \<le> 2" "list_all (\<lambda>c. c = 32) sp3"
    unfolding lang_spaces by blast
  from lang_tail [OF 4(3)] obtain sym2 ws kw where t: "w = sym2 @ ws @ kw" "length sym2 \<le> 1"
    "list_all currency_symbol sym2" "length ws \<le> 2" "list_all white_space ws" "period_keyword kw"
    by blast
  from sym sp amt have "salary_core (sym # sp @ amt @ [32])"
    unfolding salary_core_def by blast
  moreover have "s = (sym # sp @ amt @ [32]) @ sp3 @ sym2 @ ws @ kw"
    using 1(1) 2(1) 3(1) 4(1) sym(1) sp3(1) t(1) by simp
  ultimately show ?thesis
    unfolding salary_phrase_def using sp3(2,3) t(2-6) by blast
qed

lemma core_in_lang:
  assumes "salary_core s"
  shows "s \<in> lang True (pattern salaryRegex)"
proof -
  from assms obtain sym sp amt where s: "s = sym # sp @ amt @ [32]" and c: "currency_symbol sym"
    and sp: "length sp \<le> 1" "list_all white_space sp" and amt: "amount_text amt"
    unfolding salary_core_def by blast
  have 1: "[sym] \<in> lang True (Group ''currencySymbol'' (cls currency_symbol))"
    using c by (simp add: cls_def in_set_currency)
  have 2: "sp \<in> lang True (Opt (cls white_space))"
    unfolding cls_def using sp
    by (simp only: lang_opt_class [of white_space white_space, OF in_set_white_space] mem_Collect_eq)
  have 3: "amt \<in> lang True (Group ''amount'' amount_pattern)"
    using amt by (simp only: lang.simps(7) lang_amount_pattern mem_Collect_eq)
  have 4: "[32] \<in> lang True (between 1 3 (chr 32))"
    unfolding lang_spaces by simp
  from lang_SeqI [OF 1 lang_SeqI [OF 2 lang_SeqI [OF 3 lang_SeqI [OF 4 lang_tail_Nil]]]]
  show ?thesis unfolding salary_pattern s by simp
qed

lemma salary_assertion_free: "assertion_free (pattern salaryRegex)"
  by (simp add: salaryRegex_def cls_def chr_def lit_def Plus_def between_def str_def numeral_2_eq_2 numeral_3_eq_3)

lemma salary_phrase_core: "salary_phrase s \<Longrightarrow> \<exists>core tl. s = core @ tl \<and> salary_core core"
  unfolding salary_phrase_def by blast

lemma salary_matches_iff:
  "matches True (pattern salaryRegex) (b, a, g) \<noteq> [] \<longleftrightarrow> (\<exists>s t. a = s @ t \<and> salary_core s)"
proof
  assume "matches True (pattern salaryRegex) (b, a, g) \<noteq> []"
  then obtain s t where "a = s @ t" "s \<in> lang True (pattern salaryRegex)"
    unfolding matches_nonempty_iff [OF salary_assertion_free] by blast
  moreover from this(2) obtain core tl where "s = core @ tl" "salary_core core"
    using lang_salary_phrase salary_phrase_core by blast
  ultimately have "a = core @ (tl @ t)" "salary_core core" by simp_all
  then show "\<exists>s t. a = s @ t \<and> salary_core s" by blast
next
  assume "\<exists>s t. a = s @ t \<and> salary_core s"
  then obtain s t where "a = s @ t" "s \<in> lang True (pattern salaryRegex)"
    using core_in_lang by blast
  then show "matches True (pattern salaryRegex) (b, a, g) \<noteq> []"
    unfolding matches_nonempty_iff [OF salary_assertion_free] by blast
qed

lemma amount_text_nonempty: "amount_text amt \<Longrightarrow> amt \<noteq> []"
  unfolding amount_text_def by auto

lemma salary_amount_group:
  assumes "y \<in> set (matches True (pattern salaryRegex) (b, a, []))"
  shows "\<exists>d ds. map_of (snd (snd y)) ''amount'' = Some (d # ds)"
proof -
  let ?G1 = "Group ''currencySymbol'' (cls currency_symbol)"
  let ?O = "Opt (cls white_space)"
  let ?GA = "Group ''amount'' amount_pattern"
  let ?R = "Seq (between 1 3 (chr 32)) salary_tail"
  from matches_SeqE [OF assms [unfolded salary_pattern]]
  obtain y1 where y1: "y1 \<in> set (matches True ?G1 (b, a, []))"
    and r1: "y \<in> set (matches True (Seq ?O (Seq ?GA ?R)) y1)"
    by blast
  from matches_SeqE [OF r1] obtain y2 where y2: "y2 \<in> set (matches True ?O y1)"
    and r2: "y \<in> set (matches True (Seq ?GA ?R) y2)"
    by blast
  from matches_SeqE [OF r2] obtain y3 where y3: "y3 \<in> set (matches True ?GA y2)"
    and r3: "y \<in> set (matches True ?R y3)"
    by blast
  have n1: "group_names (cls currency_symbol) = {}" by (simp add: cls_def)
  from matches_Group_capture [OF y1 n1] obtain s1 where g1: "snd (snd y1) = [(''currencySymbol'', s1)]"
    by auto
  from matches_groups [OF y2] have g2: "snd (snd y2) = snd (snd y1)" by (simp add: cls_def)
  have n3: "group_names amount_pattern = {}"
    by (simp add: amount_pattern_def cls_def chr_def Plus_def between_def numeral_3_eq_3)
  obtain b2 a2 e2 where p2: "y2 = (b2, a2, e2)" by (cases y2)
  from matches_Group_capture [OF y3 [unfolded p2] n3] obtain amt
    where amt: "amt \<in> lang True amount_pattern" and g3: "snd (snd y3) = e2 @ [(''amount'', amt)]"
    by auto
  from amt have "amount_text amt" by (simp only: lang_amount_pattern mem_Collect_eq)
  then obtain d ds where dd: "amt = d # ds" using amount_text_nonempty by (cases amt) auto
  from matches_groups [OF r3] obtain e where e: "snd (snd y) = snd (snd y3) @ e" by blast
  from g1 g2 p2 have "e2 = [(''currencySymbol'', s1)]" by simp
  with g3 e dd have "map_of (snd (snd y)) ''amount'' = Some (d # ds)" by simp
  then show ?thesis by blast
qed

lemma scan_Some_first:
  "scan ic r b a = Some m \<Longrightarrow>
     \<exists>i \<le> length a. \<exists>b' a' ys.
        matches ic r (rev (take i a) @ b, drop i a, []) = (b', a', groups m) # ys \<and>
        drop i a = matched m @ a'"
proof (induction a arbitrary: b)
  case Nil
  then obtain b' a' g ys where m: "matches ic r (b, [], []) = (b', a', g) # ys"
    and mm: "m = \<lparr>index = length b, matched = rev (take (length b' - length b) b'),
                  groups = g, endIndex = length b'\<rparr>"
    by (auto split: list.splits)
  from matches_consumes [of "(b', a', g)" ic r "(b, [], [])"] m
  obtain s where "[] = s @ a'" "b' = rev s @ b" by auto
  with m mm show ?case by simp
next
  case (Cons c cs)
  show ?case
  proof (cases "matches ic r (b, c # cs, [])")
    case Nil
    with Cons.prems have "scan ic r (c # b) cs = Some m" by simp
    from Cons.IH [OF this] obtain i b' a' ys where i: "i \<le> length cs"
      "matches ic r (rev (take i cs) @ c # b, drop i cs, []) = (b', a', groups m) # ys"
      "drop i cs = matched m @ a'"
      by blast
    then show ?thesis
      by (intro exI [of _ "Suc i"]) simp
  next
    case (Cons y ys)
    obtain b' a' g where y: "y = (b', a', g)" by (cases y)
    with Cons Cons.prems have mm: "m = \<lparr>index = length b, matched = rev (take (length b' - length b) b'),
                  groups = g, endIndex = length b'\<rparr>"
      by simp
    from matches_consumes [of "(b', a', g)" ic r "(b, c # cs, [])"] Cons y
    obtain s where s: "c # cs = s @ a'" "b' = rev s @ b" by auto
    then have "matched m = s" by (simp add: mm)
    with Cons y s mm show ?thesis
      by (intro exI [of _ 0]) simp
  qed
qed

lemma salary_found_iff:
  assumes "salary_lastIndex w = 0"
  shows "fst (extractSalary w text) \<noteq> None \<longleftrightarrow>
           (\<exists>pre s post. text = pre @ s @ post \<and> salary_core s)"
proof
  assume "fst (extractSalary w text) \<noteq> None"
  then have "scan True (pattern salaryRegex) [] text \<noteq> None"
    using assms by (auto simp: extractSalary_def RegExp_exec_def salaryRegex_def split: option.splits)
  then obtain i where "i \<le> length text"
    "matches True (pattern salaryRegex) (rev (take i text), drop i text, []) \<noteq> []"
    using scan_None_iff [of True "pattern salaryRegex" "[]" "text"] by auto
  then obtain s t where "drop i text = s @ t" "salary_core s"
    unfolding salary_matches_iff by blast
  then have "text = take i text @ s @ t" "salary_core s"
    by (metis append_take_drop_id)+
  then show "\<exists>pre s post. text = pre @ s @ post \<and> salary_core s" by blast
next
  assume "\<exists>pre s post. text = pre @ s @ post \<and> salary_core s"
  then obtain pre s post where t: "text = pre @ s @ post" and c: "salary_core s" by blast
  have "matches True (pattern salaryRegex) (rev (take (length pre) text), drop (length pre) text, []) \<noteq> []"
    unfolding salary_matches_iff using t c by auto
  moreover have "length pre \<le> length text" using t by simp
  ultimately have "scan True (pattern salaryRegex) [] text \<noteq> None"
    using scan_None_iff [of True "pattern salaryRegex" "[]" "text"] by auto
  then obtain m where m: "scan True (pattern salaryRegex) [] text = Some m" by blast
  from scan_Some_first [OF m] obtain i b' a' ys where
    "matches True (pattern salaryRegex) (rev (take i text), drop i text, []) = (b', a', groups m) # ys"
    by auto
  then have "(b', a', groups m) \<in> set (matches True (pattern salaryRegex) (rev (take i text), drop i text, []))"
    by simp
  from salary_amount_group [OF this] obtain d ds where "map_of (groups m) ''amount'' = Some (d # ds)"
    by auto
  with m assms show "fst (extractSalary w text) \<noteq> None"
    by (simp add: extractSalary_def RegExp_exec_def Let_def salaryRegex_def)
qed

lemma salary_match_shape:
  assumes "RegExp_exec salaryRegex 0 text = (Some m, li)"
  shows "salary_phrase (matched m) \<and> (\<exists>pre post. text = pre @ matched m @ post)"
proof -
  from assms have m: "scan True (pattern salaryRegex) [] text = Some m"
    by (auto simp: RegExp_exec_def salaryRegex_def split: option.splits)
  from scan_Some_first [OF m] obtain i b' a' ys where
    y: "matches True (pattern salaryRegex) (rev (take i text), drop i text, []) = (b', a', groups m) # ys"
    and d: "drop i text = matched m @ a'"
    by auto
  from y have "(b', a', groups m) \<in> set (matches True (pattern salaryRegex) (rev (take i text), drop i text, []))"
    by simp
  from matches_sound [OF this] obtain s where s: "s \<in> lang True (pattern salaryRegex)" "drop i text = s @ a'"
    by auto
  with d have "matched m = s" by simp
  with s(1) have "salary_phrase (matched m)" by (simp add: lang_salary_phrase)
  moreover from d have "text = take i text @ matched m @ a'" by (metis append_take_drop_id)
  ultimately show ?thesis by blast
qed

text \<open>
  C6, as amended. With \<open>lastIndex\<close> 0 the extractor returns a salary exactly when
  the text holds the core of a salary phrase (a currency symbol, an optional space, a
  comma-groupable amount with optional one or two decimal digits and a space), and what
  \<open>salaryRegex\<close> then matches is a salary phrase: the core, up to two more spaces, an
  optional second symbol, optional white space and an optional period keyword. So
  "$50,000  per year" yields 50000 USD; the pound sign, "1200.50" and a space yield
  1200.5 GBP; the pound sign and "1200.50" with nothing after the amount yield null.
  Whatever \<open>lastIndex\<close> is, a text with no currency symbol yields null, and so does a
  text with no space character.
\<close>

theorem salary_extractor_cases:
  "(salary_lastIndex w = 0 \<longrightarrow>
      (fst (extractSalary w text) \<noteq> None \<longleftrightarrow>
         (\<exists>pre s post. text = pre @ s @ post \<and> salary_core s))) \<and>
   (\<forall>m li. RegExp_exec salaryRegex 0 text = (Some m, li) \<longrightarrow>
      salary_phrase (matched m) \<and> (\<exists>pre post. text = pre @ matched m @ post)) \<and>
   (salary_lastIndex w = 0 \<longrightarrow>
      fst (extractSalary w (str ''$50,000  per year'')) =
        Some \<lparr>amount = Finite 50000, currency = str ''USD''\<rparr>) \<and>
   (salary_lastIndex w = 0 \<longrightarrow>
      fst (extractSalary w (pound # str ''1200.50 '')) =
        Some \<lparr>amount = Finite (2401 / 2), currency = str ''GBP''\<rparr>) \<and>
   (salary_lastIndex w = 0 \<longrightarrow> fst (extractSalary w (pound # str ''1200.50'')) = None) \<and>
   ((\<forall>c \<in> set text. \<not> currency_symbol c) \<longrightarrow> fst (extractSalary w text) = None) \<and>
   (32 \<notin> set text \<longrightarrow> fst (extractSalary w text) = None)"
proof (intro conjI impI allI)
  assume "salary_lastIndex w = 0"
  then show "fst (extractSalary w text) \<noteq> None \<longleftrightarrow>
         (\<exists>pre s post. text = pre @ s @ post \<and> salary_core s)"
    by (rule salary_found_iff)
next
  fix m li assume "RegExp_exec salaryRegex 0 text = (Some m, li)"
  then have "salary_phrase (matched m) \<and> (\<exists>pre post. text = pre @ matched m @ post)"
    by (rule salary_match_shape)
  then show "salary_phrase (matched m)" and "\<exists>pre post. text = pre @ matched m @ post"
    by blast+
next
  assume "\<forall>c \<in> set text. \<not> currency_symbol c"
  then have "matches True (pattern salaryRegex) (bb, aa, []) = []" if "set aa \<subseteq> set text" for bb aa
    using that by (intro salary_needs_symbol) (cases aa, auto)
  then show "fst (extractSalary w text) = None" by (rule salary_None)
next
  assume "32 \<notin> set text"
  then have "matches True (pattern salaryRegex) (bb, aa, []) = []" if "set aa \<subseteq> set text" for bb aa
    using that by (intro salary_needs_space) auto
  then show "fst (extractSalary w text) = None" by (rule salary_None)
qed (simp_all add: salary_first_call salary_pound_space salary_pound_no_space)

theorem salary_extractor_cases_witness:
  "fst (extractSalary \<lparr>files = Map.empty, salary_lastIndex = 0, invoked = []\<rparr>
          (str ''I want $50,000  per year'')) \<noteq> None \<and>
   fst (extractSalary \<lparr>files = Map.empty, salary_lastIndex = 0, invoked = []\<rparr>
          (str ''$50,000  per year'')) =
     Some \<lparr>amount = Finite 50000, currency = str ''USD''\<rparr> \<and>
   fst (extractSalary \<lparr>files = Map.empty, salary_lastIndex = 0, invoked = []\<rparr>
          (pound # str ''1200.50 '')) =
     Some \<lparr>amount = Finite (2401 / 2), currency = str ''GBP''\<rparr> \<and>
   fst (extractSalary \<lparr>files = Map.empty, salary_lastIndex = 0, invoked = []\<rparr>
          (str ''salary: 50000 USD per year'')) = None \<and>
   fst (extractSalary \<lparr>files = Map.empty, salary_lastIndex = 0, invoked = []\<rparr>
          (str ''$50000'')) = None"
proof -
  let ?w = "\<lparr>files = Map.empty, salary_lastIndex = 0, invoked = []\<rparr>"
  have 1: "\<forall>c \<in> set (str ''salary: 50000 USD per year''). \<not> currency_symbol c"
    by (simp add: str_def currency_symbol_def dollar_def euro_def pound_def)
  have 2: "32 \<notin> set (str ''$50000'')"
    by (simp add: str_def)
  have "amount_text (str ''50,000'')"
    unfolding amount_text_def
    by (intro exI [of _ "str ''50''"] exI [of _ "[str '',000'']"] exI [of _ "[]"])
       (simp add: str_def digit_def three_digits_def)
  then have "salary_core (str ''$50,000 '')"
    unfolding salary_core_def
    by (intro exI [of _ dollar] exI [of _ "[]"] exI [of _ "str ''50,000''"])
       (simp add: str_def dollar_def currency_symbol_def)
  moreover have "str ''I want $50,000  per year'' = str ''I want '' @ str ''$50,000 '' @ str '' per year''"
    by (simp add: str_def)
  ultimately have 3: "\<exists>pre s post. str ''I want $50,000  per year'' = pre @ s @ post \<and> salary_core s"
    by blast
  show ?thesis
    using salary_extractor_cases [of ?w "str ''salary: 50000 USD per year''"]
      salary_extractor_cases [of ?w "str ''$50000''"]
      salary_extractor_cases [of ?w "str ''I want $50,000  per year''"] 1 2 3
    by simp
qed

theorem salary_pound_without_space_counterexample:
  "fst (extractSalary \<lparr>files = Map.empty, salary_lastIndex = 0, invoked = []\<rparr>
          (pound # str ''1200.50'')) \<noteq>
     Some \<lparr>amount = Finite (2401 / 2), currency = str ''GBP''\<rparr>"
  by (simp add: salary_pound_no_space)

end
